theory Spec2Isabelle
  imports Main "HOL-Library.AList" "HOL-Library.Option_ord"
begin

section \<open>The data model of changetracker.py\<close>

text \<open>
  The program is Python 2 (\<^verbatim>\<open>print item,"was changed"\<close>). Its exceptions are values of
  \<open>pyerror\<close>; a function that can raise returns \<open>pyerror + 'a\<close> with \<open>Inl\<close> for the
  exception. An exception leaves the Python objects partly updated; the model does not keep
  that partial state, it only records that the call raised and what.
\<close>

datatype pyerror = IOError | OSError | IndexError | KeyError | AttributeError | UnpicklingError

text \<open>
  \<^verbatim>\<open>TrackedItem.itemtype\<close> is one of \<^verbatim>\<open>"link"\<close>, \<^verbatim>\<open>"file"\<close>, \<^verbatim>\<open>"dir"\<close>, \<^verbatim>\<open>None\<close>:
  an \<open>itemtype option\<close>. The back reference \<^verbatim>\<open>ct\<close> points to the tracker that owns the
  item or is \<^verbatim>\<open>None\<close>; the model has one tracker, so the reference is \<open>Some Self\<close> or
  \<open>None\<close>. \<^verbatim>\<open>hash\<close> is the 16 byte string of \<^verbatim>\<open>md5.digest()\<close>. \<^verbatim>\<open>modtime\<close> is the
  float \<^verbatim>\<open>st_mtime\<close>; the program only stores and compares it, so it is an \<open>int\<close> here.
\<close>

datatype itemtype = Link | File | Dir

datatype ctref = Self

record item =
  path :: string
  ct :: "ctref option"
  oldpath :: "string option"
  itemtype :: "itemtype option"
  hash :: "string option"
  modtime :: "int option"

text \<open>
  The filesystem as the probes of one tick see it: what is found at an absolute path.
  \<open>Nothing\<close> is a path that does not exist or is neither a symlink, a regular file nor a
  directory (a socket, a FIFO). A regular file has its bytes and its modification time;
  \<open>denied\<close> makes \<^verbatim>\<open>open\<close> raise, and \<open>badread = Some k\<close> makes the read number \<open>k\<close>
  (from 0) of an open handle raise. What a symlink points to is not modelled: the program
  tests \<^verbatim>\<open>islink\<close> first and never looks further.
\<close>

record regular =
  content :: string
  mtime :: int
  denied :: bool
  badread :: "nat option"

datatype fsentry = Symlink | Regular regular | Directory | Nothing

text \<open>
  The world outside the program: \<^verbatim>\<open>hashlib.md5\<close> as an unknown function of the bytes fed
  to it, and the filesystem. One world is used for all the probes of a tick; the listing of
  the directory is a separate input, so a path can be listed and gone when it is probed.
\<close>

record world =
  md5 :: "string \<Rightarrow> string"
  fsys :: "string \<Rightarrow> fsentry"

text \<open>
  A Python dictionary with string keys, as an association list with distinct keys. Python 2
  iterates a dictionary in an order of its own; the model iterates in list order, a new key
  going to the end. \<^verbatim>\<open>d[k] = v\<close> is \<open>AList.update\<close>, \<^verbatim>\<open>k in d\<close> is
  \<open>k \<in> fst ` set d\<close>, \<^verbatim>\<open>d[k]\<close> after that test is \<open>map_of d k\<close>.
\<close>

type_synonym 'v dict = "(string \<times> 'v) list"

definition dvalues :: "'v dict \<Rightarrow> 'v list" where
  "dvalues d = map snd d"

text \<open>\<^verbatim>\<open>del d[k]\<close> raises \<^verbatim>\<open>KeyError\<close> when the key is missing.\<close>

definition pydel :: "string \<Rightarrow> 'v dict \<Rightarrow> pyerror + 'v dict" where
  "pydel k d = (if k \<in> fst ` set d then Inr (AList.delete k d) else Inl KeyError)"

text \<open>
  An object that sits in a dictionary and is mutated in place: the dictionary shows the new
  state under the same key, and a dictionary that does not hold the object is untouched.
\<close>

definition mutate :: "string \<Rightarrow> 'v \<Rightarrow> 'v dict \<Rightarrow> 'v dict" where
  "mutate k v d = (if k \<in> fst ` set d then AList.update k v d else d)"

record tracker =
  tpath :: string
  handler :: bool
  allitems :: "item dict"

section \<open>TrackedItem\<close>

text \<open>\<^verbatim>\<open>os.path.join\<close> of two components (posixpath).\<close>

definition path_join :: "string \<Rightarrow> string \<Rightarrow> string" where
  "path_join a b =
     (if b \<noteq> [] \<and> hd b = CHR ''/'' then b
      else if a = [] \<or> last a = CHR ''/'' then a @ b
      else a @ ''/'' @ b)"

text \<open>
  \<^verbatim>\<open>abspath\<close>: \<^verbatim>\<open>os.path.join (self.ct.path, self.path)\<close>. The first argument is the
  path of the owning tracker; an item without a tracker has no \<^verbatim>\<open>ct.path\<close>.
\<close>

definition abspath :: "string \<Rightarrow> item \<Rightarrow> pyerror + string" where
  "abspath root self =
     (case ct self of
        None \<Rightarrow> Inl AttributeError
      | Some Self \<Rightarrow> Inr (path_join root (path self)))"

fun islink :: "fsentry \<Rightarrow> bool" where
  "islink Symlink = True"
| "islink _ = False"

fun isfile :: "fsentry \<Rightarrow> bool" where
  "isfile (Regular f) = True"
| "isfile _ = False"

fun isdir :: "fsentry \<Rightarrow> bool" where
  "isdir Directory = True"
| "isdir _ = False"

text \<open>
  The loop of \<^verbatim>\<open>hashfile\<close>: \<^verbatim>\<open>fs.read (32)\<close> until the empty block, each block fed to
  the md5 object. \<open>n\<close> counts the reads made on the handle, \<open>rest\<close> is what the handle has
  not delivered yet, \<open>fed\<close> is what the md5 object has been given so far.
\<close>

function read_loop :: "nat option \<Rightarrow> nat \<Rightarrow> string \<Rightarrow> string \<Rightarrow> pyerror + string" where
  "read_loop bad n rest fed =
     (if bad = Some n then Inl IOError
      else if take 32 rest = [] then Inr fed
      else read_loop bad (Suc n) (drop 32 rest) (fed @ take 32 rest))"
  by pat_completeness auto
termination
  by (relation "measure (\<lambda>(bad, n, rest, fed). length rest)") auto

declare read_loop.simps [simp del]

text \<open>
  What a call leaves of the file handle it worked with: none was made, it was closed by
  \<^verbatim>\<open>fs.close ()\<close>, or it is still open when the call is left.
\<close>

datatype handle = NoHandle | Closed | StillOpen

text \<open>
  \<^verbatim>\<open>hashfile\<close> with the state of its file handle. \<^verbatim>\<open>open\<close> raises \<^verbatim>\<open>IOError\<close> on
  anything but a readable regular file. There is no \<^verbatim>\<open>try\<close> in the function: when a read
  raises, \<^verbatim>\<open>fs.close ()\<close> is not reached.
\<close>

definition hashfile_io :: "world \<Rightarrow> string \<Rightarrow> item \<Rightarrow> handle \<times> (pyerror + item)" where
  "hashfile_io w root self =
     (if itemtype self = Some File then
        (case abspath root self of
           Inl e \<Rightarrow> (NoHandle, Inl e)
         | Inr p \<Rightarrow>
             (case fsys w p of
                Regular f \<Rightarrow>
                  if denied f then (NoHandle, Inl IOError)
                  else
                    (case read_loop (badread f) 0 (content f) [] of
                       Inl e \<Rightarrow> (StillOpen, Inl e)
                     | Inr fed \<Rightarrow> (Closed, Inr (self\<lparr>hash := Some (md5 w fed)\<rparr>)))
              | _ \<Rightarrow> (NoHandle, Inl IOError)))
      else (NoHandle, Inr (self\<lparr>hash := None\<rparr>)))"

definition hashfile :: "world \<Rightarrow> string \<Rightarrow> item \<Rightarrow> pyerror + item" where
  "hashfile w root self = snd (hashfile_io w root self)"

text \<open>\<^verbatim>\<open>os.stat (p).st_mtime\<close>; the program calls it on regular files only.\<close>

definition stat_mtime :: "world \<Rightarrow> string \<Rightarrow> pyerror + int" where
  "stat_mtime w p = (case fsys w p of Regular f \<Rightarrow> Inr (mtime f) | _ \<Rightarrow> Inl OSError)"

text \<open>
  \<^verbatim>\<open>TrackedItem.update (init, dohash)\<close>: the new state of the item and the returned
  flag. \<^verbatim>\<open>newmodtime > self.modtime\<close> is Python 2's comparison, where \<^verbatim>\<open>None\<close> is less
  than every number: the order of \<open>int option\<close>.
\<close>

definition TrackedItem_update ::
  "world \<Rightarrow> string \<Rightarrow> item \<Rightarrow> bool \<Rightarrow> bool \<Rightarrow> pyerror + item \<times> bool" where
  "TrackedItem_update w root self init dohash =
     (case abspath root self of
        Inl e \<Rightarrow> Inl e
      | Inr p \<Rightarrow>
          (let self1 = self\<lparr>itemtype :=
                 (if islink (fsys w p) then Some Link
                  else if isfile (fsys w p) then Some File
                  else if isdir (fsys w p) then Some Dir
                  else None)\<rparr>
           in case (if dohash then hashfile w root self1 else Inr (self1\<lparr>hash := None\<rparr>)) of
                Inl e \<Rightarrow> Inl e
              | Inr self2 \<Rightarrow>
                  if itemtype self2 = Some File then
                    (case stat_mtime w p of
                       Inl e \<Rightarrow> Inl e
                     | Inr newmodtime \<Rightarrow>
                         if init then Inr (self2\<lparr>modtime := Some newmodtime\<rparr>, False)
                         else if Some newmodtime > modtime self2
                           then Inr (self2\<lparr>modtime := Some newmodtime\<rparr>, True)
                         else Inr (self2, False))
                  else Inr (self2\<lparr>modtime := None\<rparr>, False)))"

text \<open>\<^verbatim>\<open>TrackedItem (path, ct)\<close> for the tracker itself as \<^verbatim>\<open>ct\<close>.\<close>

definition TrackedItem_init :: "world \<Rightarrow> string \<Rightarrow> string \<Rightarrow> pyerror + item" where
  "TrackedItem_init w root p =
     (case TrackedItem_update w root
             \<lparr>path = p, ct = Some Self, oldpath = None, itemtype = None, hash = None,
              modtime = None\<rparr> True True of
        Inl e \<Rightarrow> Inl e
      | Inr (self, changed) \<Rightarrow> Inr self)"

text \<open>\<^verbatim>\<open>TrackedItem.move (newpath, newhash)\<close>.\<close>

definition TrackedItem_move ::
  "world \<Rightarrow> string \<Rightarrow> item \<Rightarrow> string \<Rightarrow> string option \<Rightarrow> pyerror + item" where
  "TrackedItem_move w root self newpath newhash =
     (if newpath \<noteq> path self then
        (let self1 = self\<lparr>oldpath := Some (path self), path := newpath\<rparr>
         in case newhash of
              None \<Rightarrow>
                (case TrackedItem_update w root self1 False True of
                   Inl e \<Rightarrow> Inl e
                 | Inr (self2, changed) \<Rightarrow> Inr self2)
            | Some h \<Rightarrow>
                (case TrackedItem_update w root self1 False False of
                   Inl e \<Rightarrow> Inl e
                 | Inr (self2, changed) \<Rightarrow> Inr (self2\<lparr>hash := newhash\<rparr>)))
      else Inr self)"

section \<open>ChangeTracker.update\<close>

text \<open>
  The variables of one call of \<^verbatim>\<open>update\<close>: \<^verbatim>\<open>self.allitems\<close> and the four local
  dictionaries. The dictionaries share their item objects; in the model an item that is
  mutated in place is written back to every dictionary that holds it.
\<close>

record vars =
  self_allitems :: "item dict"
  removeditems :: "item dict"
  addeditems :: "item dict"
  changeditems :: "item dict"
  moveditems :: "item dict"

text \<open>
  \<^verbatim>\<open>itempath [len(self.path)+1:]\<close> and \<^verbatim>\<open>replace ("\\", "/")\<close> on a path that
  \<^verbatim>\<open>recursive_list\<close> yields.
\<close>

definition itempath_of :: "string \<Rightarrow> string \<Rightarrow> string" where
  "itempath_of root raw =
     map (\<lambda>c. if c = CHR 0x5C then CHR ''/'' else c) (drop (length root + 1) raw)"

text \<open>The body of the first loop, for one listed path.\<close>

definition scan_step :: "world \<Rightarrow> string \<Rightarrow> vars \<Rightarrow> string \<Rightarrow> pyerror + vars" where
  "scan_step w root s raw =
     (let itempath = itempath_of root raw;
          s1 = s\<lparr>removeditems := AList.delete itempath (removeditems s)\<rparr>
      in case map_of (self_allitems s1) itempath of
           None \<Rightarrow>
             (case TrackedItem_init w root itempath of
                Inl e \<Rightarrow> Inl e
              | Inr new \<Rightarrow>
                  Inr (s1\<lparr>self_allitems := AList.update itempath new (self_allitems s1),
                          addeditems := AList.update itempath new (addeditems s1)\<rparr>))
         | Some old \<Rightarrow>
             (case TrackedItem_update w root old False True of
                Inl e \<Rightarrow> Inl e
              | Inr (cur, changed) \<Rightarrow>
                  Inr (s1\<lparr>self_allitems := AList.update itempath cur (self_allitems s1),
                          addeditems := mutate itempath cur (addeditems s1),
                          changeditems :=
                            (if changed then AList.update itempath cur (changeditems s1)
                             else mutate itempath cur (changeditems s1))\<rparr>)))"

fun scan :: "world \<Rightarrow> string \<Rightarrow> vars \<Rightarrow> string list \<Rightarrow> pyerror + vars" where
  "scan w root s [] = Inr s"
| "scan w root s (raw # raws) =
     (case scan_step w root s raw of
        Inl e \<Rightarrow> Inl e
      | Inr s' \<Rightarrow> scan w root s' raws)"

text \<open>
  The body of the second loop, for one tentatively removed item. \<open>addedhashes\<close> is the list
  built before the loop; it is not rebuilt when an added item is taken.
\<close>

definition move_step ::
  "world \<Rightarrow> string \<Rightarrow> string option list \<Rightarrow> vars \<Rightarrow> item \<Rightarrow> pyerror + vars" where
  "move_step w root addedhashes s removeditem =
     (if itemtype removeditem = Some File \<and> hash removeditem \<in> set addedhashes then
        (case filter (\<lambda>i. hash i = hash removeditem) (dvalues (addeditems s)) of
           [] \<Rightarrow> Inl IndexError
         | addeditem # others \<Rightarrow>
             (case pydel (path addeditem) (addeditems s) of
                Inl e \<Rightarrow> Inl e
              | Inr added' \<Rightarrow>
                  (case pydel (path removeditem) (removeditems s) of
                     Inl e \<Rightarrow> Inl e
                   | Inr removed' \<Rightarrow>
                       (case pydel (path removeditem) (self_allitems s) of
                          Inl e \<Rightarrow> Inl e
                        | Inr all' \<Rightarrow>
                            (case TrackedItem_move w root removeditem (path addeditem)
                                    (hash addeditem) of
                               Inl e \<Rightarrow> Inl e
                             | Inr moveditem \<Rightarrow>
                                 Inr (s\<lparr>addeditems := added',
                                        removeditems := removed',
                                        self_allitems :=
                                          AList.update (path moveditem) moveditem all',
                                        moveditems :=
                                          AList.update (path moveditem) moveditem
                                            (moveditems s)\<rparr>))))))
      else Inr s)"

fun move_loop ::
  "world \<Rightarrow> string \<Rightarrow> string option list \<Rightarrow> vars \<Rightarrow> item list \<Rightarrow> pyerror + vars" where
  "move_loop w root addedhashes s [] = Inr s"
| "move_loop w root addedhashes s (removeditem # rest) =
     (case move_step w root addedhashes s removeditem of
        Inl e \<Rightarrow> Inl e
      | Inr s' \<Rightarrow> move_loop w root addedhashes s' rest)"

text \<open>The third loop: \<^verbatim>\<open>del self.allitems [removeditem.path]\<close> for what is still removed.\<close>

fun drop_removed :: "item dict \<Rightarrow> item list \<Rightarrow> pyerror + item dict" where
  "drop_removed d [] = Inr d"
| "drop_removed d (removeditem # rest) =
     (case pydel (path removeditem) d of
        Inl e \<Rightarrow> Inl e
      | Inr d' \<Rightarrow> drop_removed d' rest)"

text \<open>
  What a tick gives: the tracker after it, the four event dictionaries as they are when
  the callbacks run, and the calls made on the handler, in order.
\<close>

datatype callback = on_removed item | on_added item | on_changed item | on_moved item

record outcome =
  after :: tracker
  removed :: "item dict"
  added :: "item dict"
  changed :: "item dict"
  moved :: "item dict"
  calls :: "callback list"

text \<open>
  \<^verbatim>\<open>ChangeTracker.update\<close>. \<open>listing\<close> is the sequence of paths that
  \<^verbatim>\<open>recursive_list (self.path)\<close> yields in this tick.
\<close>

definition ChangeTracker_update :: "world \<Rightarrow> string list \<Rightarrow> tracker \<Rightarrow> pyerror + outcome" where
  "ChangeTracker_update w listing self =
     (case scan w (tpath self)
             \<lparr>self_allitems = allitems self, removeditems = allitems self,
              addeditems = [], changeditems = [], moveditems = []\<rparr> listing of
        Inl e \<Rightarrow> Inl e
      | Inr s1 \<Rightarrow>
          (case move_loop w (tpath self) (map hash (dvalues (addeditems s1))) s1
                  (dvalues (removeditems s1)) of
             Inl e \<Rightarrow> Inl e
           | Inr s2 \<Rightarrow>
               (case drop_removed (self_allitems s2) (dvalues (removeditems s2)) of
                  Inl e \<Rightarrow> Inl e
                | Inr d \<Rightarrow>
                    Inr \<lparr>after = self\<lparr>allitems := d\<rparr>,
                         removed = removeditems s2,
                         added = addeditems s2,
                         changed = changeditems s2,
                         moved = moveditems s2,
                         calls =
                           (if handler self then
                              map on_removed (dvalues (removeditems s2))
                              @ map on_added (dvalues (addeditems s2))
                              @ map on_changed (dvalues (changeditems s2))
                              @ map on_moved (dvalues (moveditems s2))
                            else [])\<rparr>)))"

section \<open>savestate and loadstate\<close>

text \<open>
  A file of the snapshot store: missing, not accessible, or holding bytes. \<^verbatim>\<open>pickle\<close> is
  outside the program: \<open>dumps\<close> and \<open>loads\<close> are parameters, and \<open>'b\<close> is what a file
  holds.
\<close>

datatype 'b diskfile = NoFile | NoAccess | Data 'b

definition default_filename :: "string option \<Rightarrow> string" where
  "default_filename filename = (case filename of None \<Rightarrow> ''ChangeTracker'' | Some f \<Rightarrow> f)"

text \<open>
  \<^verbatim>\<open>{ i.path : copy.copy (i) for i in self.allitems.values() }\<close>, then \<^verbatim>\<open>i.ct = None\<close>
  on every copy.
\<close>

definition pickleditems_of :: "tracker \<Rightarrow> item dict" where
  "pickleditems_of self =
     map (\<lambda>(k, i). (k, i\<lparr>ct := None\<rparr>))
       (fold (\<lambda>i d. AList.update (path i) i d) (dvalues (allitems self)) [])"

definition savestate ::
  "(item dict \<Rightarrow> 'b) \<Rightarrow> tracker \<Rightarrow> string option \<Rightarrow> (string \<Rightarrow> 'b diskfile) \<Rightarrow>
     pyerror + (string \<Rightarrow> 'b diskfile)" where
  "savestate dumps self filename disk =
     (if disk (default_filename filename) = NoAccess then Inl IOError
      else Inr (disk(default_filename filename := Data (dumps (pickleditems_of self)))))"

text \<open>
  \<^verbatim>\<open>loadstate\<close>: an \<^verbatim>\<open>IOError\<close> inside the \<^verbatim>\<open>try\<close> is passed over and the tracker stays
  as it is; any other exception of \<^verbatim>\<open>pickle.loads\<close> leaves the function.
\<close>

definition loadstate ::
  "('b \<Rightarrow> pyerror + item dict) \<Rightarrow> tracker \<Rightarrow> string option \<Rightarrow> (string \<Rightarrow> 'b diskfile) \<Rightarrow>
     pyerror + tracker" where
  "loadstate loads self filename disk =
     (case disk (default_filename filename) of
        Data b \<Rightarrow>
          (case loads b of
             Inl e \<Rightarrow> if e = IOError then Inr self else Inl e
           | Inr d \<Rightarrow> Inr (self\<lparr>allitems := map (\<lambda>(k, i). (k, i\<lparr>ct := Some Self\<rparr>)) d\<rparr>))
      | _ \<Rightarrow> Inr self)"

section \<open>Notions used in the properties\<close>

text \<open>The item type that the probes of \<^verbatim>\<open>TrackedItem.update\<close> find for an entry.\<close>

definition kind :: "fsentry \<Rightarrow> itemtype option" where
  "kind e =
     (case e of Symlink \<Rightarrow> Some Link | Regular f \<Rightarrow> Some File | Directory \<Rightarrow> Some Dir
      | Nothing \<Rightarrow> None)"

text \<open>
  An item is settled in a world when refreshing it there changes nothing and reports no
  change.
\<close>

definition settled :: "world \<Rightarrow> string \<Rightarrow> item \<Rightarrow> bool" where
  "settled w root i = (TrackedItem_update w root i False True = Inr (i, False))"

text \<open>
  Key coherence of a dictionary of items: every item is stored under its own path. A
  snapshot is such a dictionary with distinct keys.
\<close>

definition coherent :: "item dict \<Rightarrow> bool" where
  "coherent d = (\<forall>(k, i) \<in> set d. path i = k)"

definition snapshot_ok :: "item dict \<Rightarrow> bool" where
  "snapshot_ok d = (distinct (map fst d) \<and> coherent d)"

text \<open>
  The invariant of the loops of a tick, for the set \<open>P\<close> of item paths listed so far: the
  dictionaries have distinct keys, \<^verbatim>\<open>self.allitems\<close> is key coherent, the tentatively
  removed and the added items are items of \<^verbatim>\<open>self.allitems\<close>, every item that is not
  tentatively removed is settled, and the keys of \<^verbatim>\<open>self.allitems\<close> are the listed paths
  and the tentatively removed ones, which are apart.
\<close>

definition tick_inv :: "world \<Rightarrow> string \<Rightarrow> string set \<Rightarrow> vars \<Rightarrow> bool" where
  "tick_inv w root P s =
     (distinct (map fst (self_allitems s)) \<and>
      distinct (map fst (removeditems s)) \<and>
      distinct (map fst (addeditems s)) \<and>
      (\<forall>k i. map_of (self_allitems s) k = Some i \<longrightarrow> path i = k) \<and>
      (\<forall>k i. map_of (removeditems s) k = Some i \<longrightarrow> map_of (self_allitems s) k = Some i) \<and>
      (\<forall>k i. map_of (addeditems s) k = Some i \<longrightarrow> map_of (self_allitems s) k = Some i) \<and>
      (\<forall>k i. map_of (self_allitems s) k = Some i \<and> k \<notin> fst ` set (removeditems s)
         \<longrightarrow> settled w root i) \<and>
      fst ` set (addeditems s) \<subseteq> P \<and>
      P \<inter> fst ` set (removeditems s) = {} \<and>
      fst ` set (self_allitems s) = P \<union> fst ` set (removeditems s))"

section \<open>Properties\<close>

lemma read_loop_all: "read_loop None n rest fed = Inr (fed @ rest)"
proof (induction "None :: nat option" n rest fed rule: read_loop.induct)
  case (1 n rest fed)
  show ?case
  proof (cases "take 32 rest = []")
    case True
    then show ?thesis by (subst read_loop.simps) auto
  next
    case False
    then have "read_loop None n rest fed = read_loop None (Suc n) (drop 32 rest) (fed @ take 32 rest)"
      by (subst read_loop.simps) simp
    with False "1" show ?thesis by simp
  qed
qed

lemma read_loop_step:
  assumes "bad \<noteq> Some n" and "rest \<noteq> []"
  shows "read_loop bad n rest fed = read_loop bad (Suc n) (drop 32 rest) (fed @ take 32 rest)"
  using assms by (subst read_loop.simps) simp

lemma read_loop_raise: "read_loop (Some n) n rest fed = Inl IOError"
  by (subst read_loop.simps) simp

lemma read_loop_bad:
  "n \<le> k \<Longrightarrow> 32 * k \<le> 32 * n + length rest + 31 \<Longrightarrow>
   read_loop (Some k) n rest fed = Inl IOError"
proof (induction "Some k" n rest fed rule: read_loop.induct)
  case (1 n rest fed)
  show ?case
  proof (cases "k = n")
    case True
    then show ?thesis by (simp add: read_loop_raise)
  next
    case False
    with "1.prems" have nk: "Suc n \<le> k" by simp
    with "1.prems" have ne: "rest \<noteq> []" by auto
    then have t: "take 32 rest \<noteq> []" by simp
    have b: "32 * k \<le> 32 * Suc n + length (drop 32 rest) + 31"
      using "1.prems" nk by simp
    have "read_loop (Some k) n rest fed =
          read_loop (Some k) (Suc n) (drop 32 rest) (fed @ take 32 rest)"
      using False ne by (simp add: read_loop_step)
    also have "\<dots> = Inl IOError"
      using False t nk b by (intro "1.hyps") auto
    finally show ?thesis .
  qed
qed

subsection \<open>TrackedItem.update, case by case\<close>

lemma abspath_ct: "ct self = Some Self \<Longrightarrow> abspath root self = Inr (path_join root (path self))"
  by (simp add: abspath_def)

lemma update_noct:
  "ct self = None \<Longrightarrow> TrackedItem_update w root self init dohash = Inl AttributeError"
  by (simp add: TrackedItem_update_def abspath_def)

lemma update_nonfile:
  assumes "ct self = Some Self" and "\<not> isfile (fsys w (path_join root (path self)))"
  shows "TrackedItem_update w root self init dohash =
    Inr (self\<lparr>itemtype := kind (fsys w (path_join root (path self))), hash := None,
              modtime := None\<rparr>, False)"
proof (cases "fsys w (path_join root (path self))")
  case Symlink
  then show ?thesis
    by (simp add: TrackedItem_update_def abspath_ct [OF assms(1)] hashfile_def hashfile_io_def
        kind_def Let_def)
next
  case (Regular f)
  with assms(2) show ?thesis by simp
next
  case Directory
  then show ?thesis
    by (simp add: TrackedItem_update_def abspath_ct [OF assms(1)] hashfile_def hashfile_io_def
        kind_def Let_def)
next
  case Nothing
  then show ?thesis
    by (simp add: TrackedItem_update_def abspath_ct [OF assms(1)] hashfile_def hashfile_io_def
        kind_def Let_def)
qed

lemma update_file_nohash:
  assumes "ct self = Some Self" and "fsys w (path_join root (path self)) = Regular f"
  shows "TrackedItem_update w root self init False =
         Inr (self\<lparr>itemtype := Some File, hash := None,
                   modtime := (if init \<or> modtime self < Some (mtime f) then Some (mtime f)
                               else modtime self)\<rparr>,
              \<not> init \<and> modtime self < Some (mtime f))"
  by (simp add: TrackedItem_update_def abspath_ct [OF assms(1)] assms(2) stat_mtime_def Let_def)

lemma hashfile_io_file:
  assumes "ct self = Some Self" and "fsys w (path_join root (path self)) = Regular f"
    and "itemtype self = Some File"
  shows "hashfile_io w root self =
     (if denied f then (NoHandle, Inl IOError)
      else case read_loop (badread f) 0 (content f) [] of
             Inl e \<Rightarrow> (StillOpen, Inl e)
           | Inr fed \<Rightarrow> (Closed, Inr (self\<lparr>hash := Some (md5 w fed)\<rparr>)))"
  by (simp add: hashfile_io_def abspath_ct [OF assms(1)] assms(2,3))

lemma update_file_hash:
  assumes "ct self = Some Self" and "fsys w (path_join root (path self)) = Regular f"
    and "\<not> denied f" and "read_loop (badread f) 0 (content f) [] = Inr fed"
  shows "TrackedItem_update w root self init True =
         Inr (self\<lparr>itemtype := Some File, hash := Some (md5 w fed),
                   modtime := (if init \<or> modtime self < Some (mtime f) then Some (mtime f)
                               else modtime self)\<rparr>,
              \<not> init \<and> modtime self < Some (mtime f))"
proof -
  have h: "hashfile w root (self\<lparr>itemtype := Some File\<rparr>) =
           Inr (self\<lparr>itemtype := Some File, hash := Some (md5 w fed)\<rparr>)"
    using assms by (simp add: hashfile_def hashfile_io_file [where f = f])
  show ?thesis
    by (simp add: TrackedItem_update_def abspath_ct [OF assms(1)] assms(2) h stat_mtime_def
        Let_def)
qed

lemma update_file_raise:
  assumes "ct self = Some Self" and "fsys w (path_join root (path self)) = Regular f"
    and "denied f \<or> read_loop (badread f) 0 (content f) [] = Inl IOError"
  shows "TrackedItem_update w root self init True = Inl IOError"
proof -
  have h: "hashfile w root (self\<lparr>itemtype := Some File\<rparr>) = Inl IOError"
    using assms by (auto simp add: hashfile_def hashfile_io_file [where f = f])
  show ?thesis
    by (simp add: TrackedItem_update_def abspath_ct [OF assms(1)] assms(2) h Let_def)
qed

subsection \<open>Dictionaries\<close>

lemma keys_delete: "fst ` set (AList.delete k d) = fst ` set d - {k}"
  by (induction d) auto

lemma keys_mutate: "fst ` set (mutate k v d) = fst ` set d"
  by (auto simp: mutate_def AList.dom_update)

lemma distinct_mutate: "distinct (map fst d) \<Longrightarrow> distinct (map fst (mutate k v d))"
  by (simp add: mutate_def AList.distinct_update)

lemma map_of_mutate:
  "map_of (mutate k v d) = (if k \<in> fst ` set d then (map_of d)(k \<mapsto> v) else map_of d)"
  by (simp add: mutate_def AList.update_conv')

lemma pydel_Inr: "pydel k d = Inr d' \<longleftrightarrow> k \<in> fst ` set d \<and> d' = AList.delete k d"
  by (auto simp: pydel_def)

lemma in_keys_iff: "k \<in> fst ` set d \<longleftrightarrow> map_of d k \<noteq> None"
  by (simp add: map_of_eq_None_iff)

lemma values_map_of:
  assumes "distinct (map fst d)" and "i \<in> set (dvalues d)"
  shows "\<exists>k. map_of d k = Some i"
proof -
  from assms(2) obtain k where "(k, i) \<in> set d" by (auto simp: dvalues_def)
  with assms(1) have "map_of d k = Some i" by simp
  then show ?thesis ..
qed

subsection \<open>Settled items\<close>

lemma read_loop_Inl: "read_loop bad n rest fed = Inl e \<Longrightarrow> e = IOError"
proof (induction bad n rest fed rule: read_loop.induct)
  case (1 bad n rest fed)
  show ?case
  proof (cases "bad = Some n")
    case True
    with "1.prems" show ?thesis by (subst (asm) read_loop.simps) simp
  next
    case nb: False
    show ?thesis
    proof (cases "take 32 rest = []")
      case True
      with nb "1.prems" show ?thesis by (subst (asm) read_loop.simps) simp
    next
      case False
      with nb "1.prems" have "read_loop bad (Suc n) (drop 32 rest) (fed @ take 32 rest) = Inl e"
        by (subst (asm) read_loop.simps) simp
      with nb False show ?thesis by (rule "1.IH")
    qed
  qed
qed

lemma update_file_Inr:
  assumes "ct self = Some Self" and "fsys w (path_join root (path self)) = Regular f"
    and "TrackedItem_update w root self init True = Inr r"
  shows "\<not> denied f \<and> (\<exists>fed. read_loop (badread f) 0 (content f) [] = Inr fed)"
proof (rule ccontr)
  assume "\<not> (\<not> denied f \<and> (\<exists>fed. read_loop (badread f) 0 (content f) [] = Inr fed))"
  then have "denied f \<or> (\<exists>e. read_loop (badread f) 0 (content f) [] = Inl e)"
    by (cases "read_loop (badread f) 0 (content f) []") auto
  then have "denied f \<or> read_loop (badread f) 0 (content f) [] = Inl IOError"
    by (auto dest: read_loop_Inl)
  with assms(1,2) have "TrackedItem_update w root self init True = Inl IOError"
    by (rule update_file_raise)
  with assms(3) show False by simp
qed

lemma update_Inr_ct:
  assumes "TrackedItem_update w root self init dohash = Inr r"
  shows "ct self = Some Self"
proof (cases "ct self")
  case None
  with assms show ?thesis by (simp add: update_noct)
next
  case (Some c)
  then show ?thesis by (cases c) simp
qed

lemma settled_iff:
  "settled w root a \<longleftrightarrow>
     ct a = Some Self \<and>
     (case fsys w (path_join root (path a)) of
        Regular f \<Rightarrow>
          \<not> denied f \<and> itemtype a = Some File \<and> \<not> modtime a < Some (mtime f) \<and>
          (\<exists>fed. read_loop (badread f) 0 (content f) [] = Inr fed \<and> hash a = Some (md5 w fed))
      | e \<Rightarrow> itemtype a = kind e \<and> hash a = None \<and> modtime a = None)"
  (is "?L \<longleftrightarrow> ?R")
proof (cases "ct a = Some Self")
  case False
  then have "\<not> settled w root a"
    unfolding settled_def using update_Inr_ct by blast
  with False show ?thesis by simp
next
  case c: True
  show ?thesis
  proof (cases "isfile (fsys w (path_join root (path a)))")
    case False
    have "settled w root a \<longleftrightarrow>
          a\<lparr>itemtype := kind (fsys w (path_join root (path a))), hash := None, modtime := None\<rparr> = a"
      unfolding settled_def by (simp add: update_nonfile [OF c False])
    also have "\<dots> \<longleftrightarrow> itemtype a = kind (fsys w (path_join root (path a))) \<and> hash a = None
                 \<and> modtime a = None"
      by (cases a) auto
    finally show ?thesis
      using c False by (cases "fsys w (path_join root (path a))") simp_all
  next
    case True
    then obtain f where f: "fsys w (path_join root (path a)) = Regular f"
      by (cases "fsys w (path_join root (path a))") simp_all
    show ?thesis
    proof (cases "\<not> denied f \<and> (\<exists>fed. read_loop (badread f) 0 (content f) [] = Inr fed)")
      case False
      then have "\<not> settled w root a"
        unfolding settled_def using update_file_Inr [OF c f] by blast
      with False c f show ?thesis by auto
    next
      case True
      then obtain fed where nd: "\<not> denied f"
        and fed: "read_loop (badread f) 0 (content f) [] = Inr fed" by blast
      have "settled w root a \<longleftrightarrow>
          a\<lparr>itemtype := Some File, hash := Some (md5 w fed),
            modtime := (if modtime a < Some (mtime f) then Some (mtime f) else modtime a)\<rparr> = a
          \<and> \<not> modtime a < Some (mtime f)"
        unfolding settled_def by (simp add: update_file_hash [OF c f nd fed])
      also have "\<dots> \<longleftrightarrow> itemtype a = Some File \<and> hash a = Some (md5 w fed)
                   \<and> \<not> modtime a < Some (mtime f)"
        by (cases a) auto
      finally show ?thesis
        using c f nd fed by auto
    qed
  qed
qed

lemma update_keeps:
  assumes "TrackedItem_update w root i0 init dohash = Inr (i, c)"
  shows "path i = path i0 \<and> oldpath i = oldpath i0 \<and> ct i = Some Self"
proof -
  have ct: "ct i0 = Some Self" using assms by (rule update_Inr_ct)
  show ?thesis
  proof (cases "isfile (fsys w (path_join root (path i0)))")
    case False
    with assms ct show ?thesis by (auto simp: update_nonfile)
  next
    case True
    then obtain f where f: "fsys w (path_join root (path i0)) = Regular f"
      by (cases "fsys w (path_join root (path i0))") simp_all
    show ?thesis
    proof (cases dohash)
      case False
      with assms ct f show ?thesis by (auto simp: update_file_nohash)
    next
      case True
      with assms have u: "TrackedItem_update w root i0 init True = Inr (i, c)" by simp
      from update_file_Inr [OF ct f u] obtain fed where
        "\<not> denied f" and "read_loop (badread f) 0 (content f) [] = Inr fed" by blast
      with u ct f show ?thesis by (auto simp: update_file_hash)
    qed
  qed
qed

lemma update_settled:
  assumes "TrackedItem_update w root i0 init True = Inr (i, c)"
  shows "settled w root i"
proof -
  have ct: "ct i0 = Some Self" using assms by (rule update_Inr_ct)
  show ?thesis
  proof (cases "isfile (fsys w (path_join root (path i0)))")
    case False
    from assms have i: "i = i0\<lparr>itemtype := kind (fsys w (path_join root (path i0))),
                                hash := None, modtime := None\<rparr>"
      by (simp add: update_nonfile [OF ct False])
    from False ct show ?thesis
      by (cases "fsys w (path_join root (path i0))") (simp_all add: settled_iff i)
  next
    case True
    then obtain f where f: "fsys w (path_join root (path i0)) = Regular f"
      by (cases "fsys w (path_join root (path i0))") simp_all
    from update_file_Inr [OF ct f assms] obtain fed where nd: "\<not> denied f"
      and fed: "read_loop (badread f) 0 (content f) [] = Inr fed" by blast
    from assms have i: "i = i0\<lparr>itemtype := Some File, hash := Some (md5 w fed),
        modtime := (if init \<or> modtime i0 < Some (mtime f) then Some (mtime f)
                    else modtime i0)\<rparr>"
      by (simp add: update_file_hash [OF ct f nd fed])
    show ?thesis
      by (simp add: settled_iff i ct f nd fed)
  qed
qed

lemma init_settled:
  assumes "TrackedItem_init w root p = Inr i"
  shows "settled w root i \<and> path i = p \<and> oldpath i = None"
proof -
  let ?new = "\<lparr>path = p, ct = Some Self, oldpath = None, itemtype = None, hash = None,
               modtime = None\<rparr>"
  from assms obtain c where u: "TrackedItem_update w root ?new True True = Inr (i, c)"
    by (auto simp: TrackedItem_init_def split: sum.splits)
  from update_settled [OF u] update_keeps [OF u] show ?thesis by simp
qed

lemma move_settled:
  assumes a: "settled w root a" and ne: "path a \<noteq> path r"
    and m: "TrackedItem_move w root r (path a) (hash a) = Inr m"
  shows "settled w root m \<and> path m = path a \<and> oldpath m = Some (path r)"
proof (cases "hash a")
  case None
  let ?r1 = "r\<lparr>oldpath := Some (path r), path := path a\<rparr>"
  from m ne None obtain c where u: "TrackedItem_update w root ?r1 False True = Inr (m, c)"
    by (auto simp: TrackedItem_move_def Let_def split: sum.splits)
  from update_settled [OF u] update_keeps [OF u] show ?thesis by simp
next
  case (Some h)
  let ?r1 = "r\<lparr>oldpath := Some (path r), path := path a\<rparr>"
  from m ne Some obtain m2 c where u: "TrackedItem_update w root ?r1 False False = Inr (m2, c)"
    and mm: "m = m2\<lparr>hash := Some h\<rparr>"
    by (auto simp: TrackedItem_move_def Let_def split: sum.splits)
  have ct1: "ct ?r1 = Some Self" using u by (rule update_Inr_ct)
  from a Some obtain f fed where f: "fsys w (path_join root (path a)) = Regular f"
    and nd: "\<not> denied f" and fed: "read_loop (badread f) 0 (content f) [] = Inr fed"
    and h: "h = md5 w fed"
    by (cases "fsys w (path_join root (path a))") (auto simp: settled_iff)
  have f1: "fsys w (path_join root (path ?r1)) = Regular f" using f by simp
  from u have m2: "m2 = ?r1\<lparr>itemtype := Some File, hash := None,
      modtime := (if modtime r < Some (mtime f) then Some (mtime f) else modtime r)\<rparr>"
    by (auto simp: update_file_nohash [OF ct1 f1])
  from ct1 show ?thesis
    by (simp add: settled_iff mm m2 f nd fed h)
qed

subsection \<open>The invariant of a tick\<close>

lemma map_of_in_keys: "map_of d k = Some v \<Longrightarrow> k \<in> fst ` set d"
  by (auto dest: map_of_SomeD intro: rev_image_eqI)

lemma tick_invD:
  assumes "tick_inv w root P s"
  shows "distinct (map fst (self_allitems s))"
    and "distinct (map fst (removeditems s))"
    and "distinct (map fst (addeditems s))"
    and "\<And>k i. map_of (self_allitems s) k = Some i \<Longrightarrow> path i = k"
    and "\<And>k i. map_of (removeditems s) k = Some i \<Longrightarrow> map_of (self_allitems s) k = Some i"
    and "\<And>k i. map_of (addeditems s) k = Some i \<Longrightarrow> map_of (self_allitems s) k = Some i"
    and "\<And>k i. map_of (self_allitems s) k = Some i \<Longrightarrow> k \<notin> fst ` set (removeditems s)
           \<Longrightarrow> settled w root i"
    and "fst ` set (addeditems s) \<subseteq> P"
    and "P \<inter> fst ` set (removeditems s) = {}"
    and "fst ` set (self_allitems s) = P \<union> fst ` set (removeditems s)"
  using assms unfolding tick_inv_def by simp_all

lemma tick_invI:
  assumes "distinct (map fst (self_allitems s))"
    and "distinct (map fst (removeditems s))"
    and "distinct (map fst (addeditems s))"
    and "\<And>k i. map_of (self_allitems s) k = Some i \<Longrightarrow> path i = k"
    and "\<And>k i. map_of (removeditems s) k = Some i \<Longrightarrow> map_of (self_allitems s) k = Some i"
    and "\<And>k i. map_of (addeditems s) k = Some i \<Longrightarrow> map_of (self_allitems s) k = Some i"
    and "\<And>k i. map_of (self_allitems s) k = Some i \<Longrightarrow> k \<notin> fst ` set (removeditems s)
           \<Longrightarrow> settled w root i"
    and "fst ` set (addeditems s) \<subseteq> P"
    and "P \<inter> fst ` set (removeditems s) = {}"
    and "fst ` set (self_allitems s) = P \<union> fst ` set (removeditems s)"
  shows "tick_inv w root P s"
  unfolding tick_inv_def using assms by blast


lemma tick_inv_put:
  assumes inv: "tick_inv w root P s" and st: "settled w root i" and p: "path i = p"
    and r: "removeditems s' = AList.delete p (removeditems s)"
    and a: "self_allitems s' = AList.update p i (self_allitems s)"
    and d: "addeditems s' = AList.update p i (addeditems s) \<or>
            addeditems s' = mutate p i (addeditems s)"
  shows "tick_inv w root (insert p P) s'"
proof -
  note D = tick_invD [OF inv]
  have c1: "distinct (map fst (self_allitems s'))"
    using D(1) by (simp add: a AList.distinct_update)
  have c2: "distinct (map fst (removeditems s'))"
    using D(2) by (simp add: r AList.distinct_delete)
  have c3: "distinct (map fst (addeditems s'))"
    using D(3) d by (auto simp: AList.distinct_update distinct_mutate)
  have c4: "\<And>k j. map_of (self_allitems s') k = Some j \<Longrightarrow> path j = k"
    using D(4) p by (auto simp: a AList.update_conv' split: if_splits)
  have c5: "\<And>k j. map_of (removeditems s') k = Some j \<Longrightarrow> map_of (self_allitems s') k = Some j"
    using D(5) by (auto simp: a r AList.update_conv' AList.delete_conv' split: if_splits)
  have c6: "\<And>k j. map_of (addeditems s') k = Some j \<Longrightarrow> map_of (self_allitems s') k = Some j"
    using D(6) d by (auto simp: a AList.update_conv' map_of_mutate dest: map_of_in_keys split: if_splits)
  have c7: "\<And>k j. map_of (self_allitems s') k = Some j \<Longrightarrow> k \<notin> fst ` set (removeditems s')
           \<Longrightarrow> settled w root j"
    using D(7) st by (auto simp: a r AList.update_conv' keys_delete split: if_splits)
  have ka: "fst ` set (addeditems s') \<subseteq> insert p (fst ` set (addeditems s))"
    using d by (elim disjE) (simp_all add: AList.dom_update keys_mutate subset_insertI)
  have kr: "fst ` set (removeditems s') = fst ` set (removeditems s) - {p}"
    by (simp add: r keys_delete)
  have kk: "fst ` set (self_allitems s') = insert p (fst ` set (self_allitems s))"
    by (simp add: a AList.dom_update)
  have c8: "fst ` set (addeditems s') \<subseteq> insert p P"
    using D(8) ka by blast
  have c9: "insert p P \<inter> fst ` set (removeditems s') = {}"
    using D(9) unfolding kr by blast
  have c10: "fst ` set (self_allitems s') = insert p P \<union> fst ` set (removeditems s')"
    using D(9) D(10) unfolding kr kk by blast
  from c1 c2 c3 c4 c5 c6 c7 c8 c9 c10 show ?thesis by (rule tick_invI)
qed


lemma tick_inv_move:
  assumes inv: "tick_inv w root P s" and st: "settled w root m" and pm: "path m = c"
    and cP: "c \<in> P" and q: "q \<in> fst ` set (removeditems s)"
    and r: "removeditems s' = AList.delete q (removeditems s)"
    and a: "self_allitems s' = AList.update c m (AList.delete q (self_allitems s))"
    and d: "addeditems s' = AList.delete c (addeditems s)"
  shows "tick_inv w root P s'"
proof -
  note D = tick_invD [OF inv]
  from cP q D(9) have cq: "c \<noteq> q" by auto
  from cP D(9) have cr: "c \<notin> fst ` set (removeditems s)" by auto
  from q D(9) have qP: "q \<notin> P" by auto
  from qP D(8) have qa: "map_of (addeditems s) q = None"
    by (auto simp: map_of_eq_None_iff)
  from cr have crn: "map_of (removeditems s) c = None"
    by (simp add: map_of_eq_None_iff)
  have c1: "distinct (map fst (self_allitems s'))"
    using D(1) by (simp add: a AList.distinct_update AList.distinct_delete)
  have c2: "distinct (map fst (removeditems s'))"
    using D(2) by (simp add: r AList.distinct_delete)
  have c3: "distinct (map fst (addeditems s'))"
    using D(3) by (simp add: d AList.distinct_delete)
  have c4: "\<And>k j. map_of (self_allitems s') k = Some j \<Longrightarrow> path j = k"
    using D(4) pm by (auto simp: a AList.update_conv' AList.delete_conv' split: if_splits)
  have c5: "\<And>k j. map_of (removeditems s') k = Some j \<Longrightarrow> map_of (self_allitems s') k = Some j"
    using D(5) crn
    by (auto simp: a r AList.update_conv' AList.delete_conv' split: if_splits)
  have c6: "\<And>k j. map_of (addeditems s') k = Some j \<Longrightarrow> map_of (self_allitems s') k = Some j"
    using D(6) qa
    by (auto simp: a d AList.update_conv' AList.delete_conv' split: if_splits)
  have c7: "\<And>k j. map_of (self_allitems s') k = Some j \<Longrightarrow> k \<notin> fst ` set (removeditems s')
           \<Longrightarrow> settled w root j"
    using D(7) st
    by (auto simp: a r AList.update_conv' AList.delete_conv' keys_delete split: if_splits)
  have ka: "fst ` set (addeditems s') = fst ` set (addeditems s) - {c}"
    by (simp add: d keys_delete)
  have kr: "fst ` set (removeditems s') = fst ` set (removeditems s) - {q}"
    by (simp add: r keys_delete)
  have kk: "fst ` set (self_allitems s') = insert c (fst ` set (self_allitems s) - {q})"
    by (simp add: a AList.dom_update keys_delete)
  have c8: "fst ` set (addeditems s') \<subseteq> P"
    using D(8) unfolding ka by blast
  have c9: "P \<inter> fst ` set (removeditems s') = {}"
    using D(9) unfolding kr by blast
  have c10: "fst ` set (self_allitems s') = P \<union> fst ` set (removeditems s')"
    using D(10) cP qP unfolding kr kk by blast
  from c1 c2 c3 c4 c5 c6 c7 c8 c9 c10 show ?thesis by (rule tick_invI)
qed

subsection \<open>The loops of a tick\<close>

lemma scan_step_cases:
  assumes "scan_step w root s raw = Inr s'"
  obtains (new) i where "map_of (self_allitems s) (itempath_of root raw) = None"
      and "TrackedItem_init w root (itempath_of root raw) = Inr i"
      and "s' = s\<lparr>removeditems := AList.delete (itempath_of root raw) (removeditems s),
                   self_allitems := AList.update (itempath_of root raw) i (self_allitems s),
                   addeditems := AList.update (itempath_of root raw) i (addeditems s)\<rparr>"
  | (old) i0 i c where "map_of (self_allitems s) (itempath_of root raw) = Some i0"
      and "TrackedItem_update w root i0 False True = Inr (i, c)"
      and "s' = s\<lparr>removeditems := AList.delete (itempath_of root raw) (removeditems s),
                   self_allitems := AList.update (itempath_of root raw) i (self_allitems s),
                   addeditems := mutate (itempath_of root raw) i (addeditems s),
                   changeditems :=
                     (if c then AList.update (itempath_of root raw) i (changeditems s)
                      else mutate (itempath_of root raw) i (changeditems s))\<rparr>"
  using assms
  by (auto simp: scan_step_def Let_def split: option.splits sum.splits)

lemma scan_step_inv:
  assumes inv: "tick_inv w root P s" and st: "scan_step w root s raw = Inr s'"
  shows "tick_inv w root (insert (itempath_of root raw) P) s'"
  using st
proof (cases rule: scan_step_cases)
  case (new i)
  from init_settled [OF new(2)] have i: "settled w root i" and p: "path i = itempath_of root raw"
    by simp_all
  show ?thesis
    by (rule tick_inv_put [OF inv i p]) (simp_all add: new(3))
next
  case (old i0 i c)
  from inv old(1) have "path i0 = itempath_of root raw" by (rule tick_invD(4))
  with update_keeps [OF old(2)] have p: "path i = itempath_of root raw" by simp
  from update_settled [OF old(2)] have i: "settled w root i" .
  show ?thesis
    by (rule tick_inv_put [OF inv i p]) (simp_all add: old(3))
qed

lemma scan_inv:
  "tick_inv w root P s \<Longrightarrow> scan w root s raws = Inr s' \<Longrightarrow>
   tick_inv w root (P \<union> itempath_of root ` set raws) s'"
proof (induction raws arbitrary: s P)
  case Nil
  then show ?case by simp
next
  case (Cons raw raws)
  from Cons.prems(2) obtain s1 where s1: "scan_step w root s raw = Inr s1"
    and rest: "scan w root s1 raws = Inr s'"
    by (auto split: sum.splits)
  from scan_step_inv [OF Cons.prems(1) s1]
  have "tick_inv w root (insert (itempath_of root raw) P) s1" .
  from Cons.IH [OF this rest] show ?case by simp
qed


lemma move_step_cases:
  assumes "move_step w root hs s r = Inr s'"
  obtains (skip) "s' = s"
  | (move) a m where "a \<in> set (dvalues (addeditems s))" and "hash a = hash r"
      and "itemtype r = Some File"
      and "path a \<in> fst ` set (addeditems s)"
      and "path r \<in> fst ` set (removeditems s)"
      and "path r \<in> fst ` set (self_allitems s)"
      and "TrackedItem_move w root r (path a) (hash a) = Inr m"
      and "s' = s\<lparr>addeditems := AList.delete (path a) (addeditems s),
                   removeditems := AList.delete (path r) (removeditems s),
                   self_allitems :=
                     AList.update (path m) m (AList.delete (path r) (self_allitems s)),
                   moveditems := AList.update (path m) m (moveditems s)\<rparr>"
proof (cases "itemtype r = Some File \<and> hash r \<in> set hs")
  case False
  with assms have "s' = s" by (auto simp: move_step_def)
  then show ?thesis by (rule skip)
next
  case True
  show ?thesis
  proof (cases "filter (\<lambda>i. hash i = hash r) (dvalues (addeditems s))")
    case Nil
    with True assms show ?thesis by (simp add: move_step_def)
  next
    case (Cons a others)
    then have "a \<in> set (filter (\<lambda>i. hash i = hash r) (dvalues (addeditems s)))" by simp
    then have a: "a \<in> set (dvalues (addeditems s))" and h: "hash a = hash r" by simp_all
    from assms True Cons obtain m where
      "path a \<in> fst ` set (addeditems s)" and
      "path r \<in> fst ` set (removeditems s)" and
      "path r \<in> fst ` set (self_allitems s)" and
      "TrackedItem_move w root r (path a) (hash a) = Inr m" and
      "s' = s\<lparr>addeditems := AList.delete (path a) (addeditems s),
                   removeditems := AList.delete (path r) (removeditems s),
                   self_allitems :=
                     AList.update (path m) m (AList.delete (path r) (self_allitems s)),
                   moveditems := AList.update (path m) m (moveditems s)\<rparr>"
      by (auto simp: move_step_def pydel_def split: sum.splits if_splits)
    with a h True show ?thesis by (intro move) simp_all
  qed
qed

lemma move_step_inv:
  assumes inv: "tick_inv w root P s" and st: "move_step w root hs s r = Inr s'"
  shows "tick_inv w root P s'"
  using st
proof (cases rule: move_step_cases)
  case skip
  with inv show ?thesis by simp
next
  case (move a m)
  note D = tick_invD [OF inv]
  from values_map_of [OF D(3) move(1)] obtain k where k: "map_of (addeditems s) k = Some a" ..
  then have ka: "map_of (self_allitems s) k = Some a" by (rule D(6))
  then have pa: "path a = k" by (rule D(4))
  from k have "k \<in> fst ` set (addeditems s)" by (rule map_of_in_keys)
  with D(8) have kP: "k \<in> P" by blast
  with D(9) have kr: "k \<notin> fst ` set (removeditems s)" by blast
  with ka have sa: "settled w root a" by (rule D(7))
  have ne: "path a \<noteq> path r"
  proof
    assume "path a = path r"
    with pa move(5) have "k \<in> fst ` set (removeditems s)" by simp
    with kr show False by contradiction
  qed
  from move_settled [OF sa ne move(7)] have sm: "settled w root m" and pm: "path m = path a"
    by simp_all
  from kP pa have cP: "path a \<in> P" by simp
  show ?thesis
    by (rule tick_inv_move [OF inv sm pm cP move(5)]) (simp_all add: move(8) pm)
qed

lemma move_loop_inv:
  "tick_inv w root P s \<Longrightarrow> move_loop w root hs s rs = Inr s' \<Longrightarrow> tick_inv w root P s'"
proof (induction rs arbitrary: s)
  case Nil
  then show ?case by simp
next
  case (Cons r rs)
  from Cons.prems(2) obtain s1 where s1: "move_step w root hs s r = Inr s1"
    and rest: "move_loop w root hs s1 rs = Inr s'"
    by (auto split: sum.splits)
  from Cons.IH [OF move_step_inv [OF Cons.prems(1) s1] rest] show ?case .
qed

lemma drop_removed_map:
  "drop_removed d rs = Inr d' \<Longrightarrow>
   map_of d' k = (if k \<in> path ` set rs then None else map_of d k)"
proof (induction rs arbitrary: d)
  case Nil
  then show ?case by simp
next
  case (Cons r rs)
  from Cons.prems obtain d1 where d1: "pydel (path r) d = Inr d1"
    and rest: "drop_removed d1 rs = Inr d'"
    by (auto split: sum.splits)
  from d1 have "d1 = AList.delete (path r) d" by (simp add: pydel_Inr)
  with Cons.IH [OF rest] show ?case by (auto simp: AList.delete_conv')
qed

lemma drop_removed_distinct:
  "distinct (map fst d) \<Longrightarrow> drop_removed d rs = Inr d' \<Longrightarrow> distinct (map fst d')"
proof (induction rs arbitrary: d)
  case Nil
  then show ?case by simp
next
  case (Cons r rs)
  from Cons.prems(2) obtain d1 where d1: "pydel (path r) d = Inr d1"
    and rest: "drop_removed d1 rs = Inr d'"
    by (auto split: sum.splits)
  from d1 have "d1 = AList.delete (path r) d" by (simp add: pydel_Inr)
  with Cons.prems(1) have "distinct (map fst d1)" by (simp add: AList.distinct_delete)
  from Cons.IH [OF this rest] show ?case .
qed

lemma tick_inv_start:
  assumes "snapshot_ok d"
  shows "tick_inv w root {}
           \<lparr>self_allitems = d, removeditems = d, addeditems = [], changeditems = [],
            moveditems = []\<rparr>"
proof (rule tick_invI)
  fix k i
  assume "map_of (self_allitems \<lparr>self_allitems = d, removeditems = d, addeditems = [],
            changeditems = [], moveditems = []\<rparr>) k = Some i"
  then have "(k, i) \<in> set d" by (auto dest: map_of_SomeD)
  with assms show "path i = k" by (auto simp: snapshot_ok_def coherent_def)
next
  fix k i
  assume "map_of (self_allitems \<lparr>self_allitems = d, removeditems = d, addeditems = [],
        changeditems = [], moveditems = []\<rparr>) k = Some i"
    and "k \<notin> fst ` set (removeditems \<lparr>self_allitems = d, removeditems = d, addeditems = [],
        changeditems = [], moveditems = []\<rparr>)"
  then have False by (auto dest: map_of_in_keys)
  then show "settled w root i" ..
qed (use assms in \<open>simp_all add: snapshot_ok_def\<close>)

lemma removed_paths:
  assumes "tick_inv w root P s"
  shows "path ` set (dvalues (removeditems s)) = fst ` set (removeditems s)"
proof -
  note D = tick_invD [OF assms]
  have "\<And>k i. (k, i) \<in> set (removeditems s) \<Longrightarrow> path i = k"
  proof -
    fix k i
    assume "(k, i) \<in> set (removeditems s)"
    with D(2) have "map_of (removeditems s) k = Some i" by simp
    then have "map_of (self_allitems s) k = Some i" by (rule D(5))
    then show "path i = k" by (rule D(4))
  qed
  then show ?thesis by (force simp: dvalues_def)
qed

lemma tick_inv_final:
  assumes inv: "tick_inv w root P s"
    and dr: "drop_removed (self_allitems s) (dvalues (removeditems s)) = Inr d"
  shows "snapshot_ok d" and "fst ` set d = P"
    and "\<And>k i. map_of d k = Some i \<Longrightarrow> settled w root i"
    and "\<And>k. map_of d k =
           (if k \<in> fst ` set (removeditems s) then None else map_of (self_allitems s) k)"
proof -
  note D = tick_invD [OF inv]
  show m: "\<And>k. map_of d k =
           (if k \<in> fst ` set (removeditems s) then None else map_of (self_allitems s) k)"
    using drop_removed_map [OF dr] by (simp add: removed_paths [OF inv])
  have di: "distinct (map fst d)" using D(1) dr by (rule drop_removed_distinct)
  have co: "coherent d"
    unfolding coherent_def
  proof (clarify)
    fix k i
    assume "(k, i) \<in> set d"
    with di have "map_of d k = Some i" by simp
    then have "map_of (self_allitems s) k = Some i" by (simp add: m split: if_splits)
    then show "path i = k" by (rule D(4))
  qed
  from di co show "snapshot_ok d" by (simp add: snapshot_ok_def)
  have "fst ` set d = fst ` set (self_allitems s) - fst ` set (removeditems s)"
  proof (rule set_eqI)
    fix k
    show "k \<in> fst ` set d \<longleftrightarrow>
          k \<in> fst ` set (self_allitems s) - fst ` set (removeditems s)"
      by (simp add: in_keys_iff m)
  qed
  then show "fst ` set d = P"
    using D(9) by (simp add: D(10) Un_Diff Diff_triv)
  show "\<And>k i. map_of d k = Some i \<Longrightarrow> settled w root i"
    using D(7) by (auto simp: m split: if_splits)
qed

subsection \<open>A tick that returns\<close>

lemma update_cases:
  assumes "ChangeTracker_update w listing self = Inr out"
  obtains s1 s2 d where
    "scan w (tpath self)
       \<lparr>self_allitems = allitems self, removeditems = allitems self,
        addeditems = [], changeditems = [], moveditems = []\<rparr> listing = Inr s1"
    and "move_loop w (tpath self) (map hash (dvalues (addeditems s1))) s1
           (dvalues (removeditems s1)) = Inr s2"
    and "drop_removed (self_allitems s2) (dvalues (removeditems s2)) = Inr d"
    and "after out = self\<lparr>allitems := d\<rparr>"
    and "removed out = removeditems s2" and "added out = addeditems s2"
    and "changed out = changeditems s2" and "moved out = moveditems s2"
  using assms
  by (auto simp: ChangeTracker_update_def split: sum.splits)

lemma tick_result:
  assumes ok: "snapshot_ok (allitems self)"
    and t: "ChangeTracker_update w listing self = Inr out"
  shows "snapshot_ok (allitems (after out))"
    and "fst ` set (allitems (after out)) = itempath_of (tpath self) ` set listing"
    and "\<And>k i. map_of (allitems (after out)) k = Some i \<Longrightarrow> settled w (tpath self) i"
    and "tpath (after out) = tpath self" and "handler (after out) = handler self"
proof -
  from t obtain s1 s2 d where
    sc: "scan w (tpath self)
       \<lparr>self_allitems = allitems self, removeditems = allitems self,
        addeditems = [], changeditems = [], moveditems = []\<rparr> listing = Inr s1"
    and mv: "move_loop w (tpath self) (map hash (dvalues (addeditems s1))) s1
           (dvalues (removeditems s1)) = Inr s2"
    and dr: "drop_removed (self_allitems s2) (dvalues (removeditems s2)) = Inr d"
    and af: "after out = self\<lparr>allitems := d\<rparr>"
    by (rule update_cases)
  from scan_inv [OF tick_inv_start [OF ok] sc]
  have "tick_inv w (tpath self) (itempath_of (tpath self) ` set listing) s1" by simp
  from move_loop_inv [OF this mv]
  have inv: "tick_inv w (tpath self) (itempath_of (tpath self) ` set listing) s2" .
  note F = tick_inv_final [OF inv dr]
  from F(1) show "snapshot_ok (allitems (after out))" by (simp add: af)
  from F(2) show "fst ` set (allitems (after out)) = itempath_of (tpath self) ` set listing"
    by (simp add: af)
  show "\<And>k i. map_of (allitems (after out)) k = Some i \<Longrightarrow> settled w (tpath self) i"
    using F(3) by (simp add: af)
  show "tpath (after out) = tpath self" and "handler (after out) = handler self"
    by (simp_all add: af)
qed

lemma scan_settled:
  assumes "distinct (map fst (self_allitems s))"
    and "\<And>p. p \<in> itempath_of root ` set raws \<Longrightarrow>
           \<exists>i. map_of (self_allitems s) p = Some i \<and> settled w root i"
    and "addeditems s = []" and "changeditems s = []"
  shows "\<exists>r. scan w root s raws = Inr (s\<lparr>removeditems := r\<rparr>) \<and>
             fst ` set r = fst ` set (removeditems s) - itempath_of root ` set raws"
  using assms
proof (induction raws arbitrary: s)
  case Nil
  show ?case by (rule exI [of _ "removeditems s"]) simp
next
  case (Cons raw raws)
  let ?p = "itempath_of root raw"
  let ?s1 = "s\<lparr>removeditems := AList.delete ?p (removeditems s)\<rparr>"
  from Cons.prems(2) [of ?p] obtain i where i: "map_of (self_allitems s) ?p = Some i"
    and st: "settled w root i" by auto
  from st have u: "TrackedItem_update w root i False True = Inr (i, False)"
    by (simp add: settled_def)
  from i have same: "AList.update ?p i (self_allitems s) = self_allitems s"
    by (rule AList.update_triv)
  have step: "scan_step w root s raw = Inr ?s1"
    using i u same Cons.prems(3,4) by (simp add: scan_step_def Let_def mutate_def)
  have "\<exists>r. scan w root ?s1 raws = Inr (?s1\<lparr>removeditems := r\<rparr>) \<and>
             fst ` set r = fst ` set (removeditems ?s1) - itempath_of root ` set raws"
    using Cons.prems by (intro Cons.IH) simp_all
  then obtain r where r: "scan w root ?s1 raws = Inr (?s1\<lparr>removeditems := r\<rparr>)"
    and kr: "fst ` set r = fst ` set (removeditems ?s1) - itempath_of root ` set raws"
    by blast
  have "scan w root s (raw # raws) = Inr (s\<lparr>removeditems := r\<rparr>)"
    using step r by simp
  moreover have "fst ` set r = fst ` set (removeditems s) - itempath_of root ` set (raw # raws)"
    using kr by (auto simp: keys_delete)
  ultimately show ?case by blast
qed

subsection \<open>Saving a snapshot\<close>

lemma update_fresh: "k \<notin> fst ` set al \<Longrightarrow> AList.update k v al = al @ [(k, v)]"
  by (induction al) auto

lemma fold_update_append:
  "coherent xs \<Longrightarrow> distinct (map fst (acc @ xs)) \<Longrightarrow>
   fold (\<lambda>i d. AList.update (path i) i d) (map snd xs) acc = acc @ xs"
proof (induction xs arbitrary: acc)
  case Nil
  then show ?case by simp
next
  case (Cons x xs)
  obtain k i where x: "x = (k, i)" by (cases x)
  from Cons.prems(1) x have p: "path i = k" and co: "coherent xs"
    by (simp_all add: coherent_def)
  from Cons.prems(2) x have fresh: "k \<notin> fst ` set acc" by auto
  from Cons.prems(2) x have d: "distinct (map fst ((acc @ [(k, i)]) @ xs))" by simp
  have "fold (\<lambda>i d. AList.update (path i) i d) (map snd (x # xs)) acc =
        fold (\<lambda>i d. AList.update (path i) i d) (map snd xs) (acc @ [(k, i)])"
    using p fresh by (simp add: x update_fresh)
  also have "\<dots> = (acc @ [(k, i)]) @ xs" using co d by (rule Cons.IH)
  finally show ?case by (simp add: x)
qed

lemma pickleditems_of_snapshot:
  assumes "snapshot_ok (allitems self)"
  shows "pickleditems_of self = map (\<lambda>(k, i). (k, i\<lparr>ct := None\<rparr>)) (allitems self)"
proof -
  from assms have "fold (\<lambda>i d. AList.update (path i) i d) (map snd (allitems self)) []
                   = [] @ allitems self"
    by (intro fold_update_append) (simp_all add: snapshot_ok_def)
  then show ?thesis by (simp add: pickleditems_of_def dvalues_def)
qed

subsection \<open>Paths under the root\<close>

lemma path_join_plain:
  assumes "root \<noteq> []" and "last root \<noteq> CHR ''/''" and "rel \<noteq> []" and "hd rel \<noteq> CHR ''/''"
  shows "path_join root rel = root @ ''/'' @ rel"
  using assms by (simp add: path_join_def)

lemma itempath_of_join:
  assumes "root \<noteq> []" and "last root \<noteq> CHR ''/''" and "rel \<noteq> []" and "hd rel \<noteq> CHR ''/''"
    and "CHR 0x5C \<notin> set rel"
  shows "itempath_of root (path_join root rel) = rel"
proof -
  have "map (\<lambda>c. if c = CHR 0x5C then CHR ''/'' else c) rel = map (\<lambda>c. c) rel"
    using assms(5) by (intro map_cong) auto
  then show ?thesis
    using assms by (simp add: path_join_plain itempath_of_def)
qed

subsection \<open>What a tick does to oldpath\<close>

lemma scan_step_all:
  assumes "scan_step w root s raw = Inr s'"
  obtains p i where "self_allitems s' = AList.update p i (self_allitems s)"
    and "case map_of (self_allitems s) p of
           Some i0 \<Rightarrow> oldpath i = oldpath i0 | None \<Rightarrow> oldpath i = None"
  using assms
proof (cases rule: scan_step_cases)
  case (new i)
  from init_settled [OF new(2)] have "oldpath i = None" by simp
  with new(1) have "case map_of (self_allitems s) (itempath_of root raw) of
           Some i0 \<Rightarrow> oldpath i = oldpath i0 | None \<Rightarrow> oldpath i = None" by simp
  moreover have "self_allitems s' = AList.update (itempath_of root raw) i (self_allitems s)"
    by (simp add: new(3))
  ultimately show ?thesis by (rule that [rotated])
next
  case (old i0 i c)
  from update_keeps [OF old(2)] have "oldpath i = oldpath i0" by simp
  with old(1) have "case map_of (self_allitems s) (itempath_of root raw) of
           Some i0 \<Rightarrow> oldpath i = oldpath i0 | None \<Rightarrow> oldpath i = None" by simp
  moreover have "self_allitems s' = AList.update (itempath_of root raw) i (self_allitems s)"
    by (simp add: old(3))
  ultimately show ?thesis by (rule that [rotated])
qed

lemma scan_oldpath:
  "scan w root s raws = Inr s' \<Longrightarrow> map_of (self_allitems s') k = Some j \<Longrightarrow>
   (case map_of (self_allitems s) k of
      Some i0 \<Rightarrow> oldpath j = oldpath i0 | None \<Rightarrow> oldpath j = None)"
proof (induction raws arbitrary: s)
  case Nil
  then show ?case by simp
next
  case (Cons raw raws)
  from Cons.prems(1) obtain s1 where s1: "scan_step w root s raw = Inr s1"
    and rest: "scan w root s1 raws = Inr s'"
    by (auto split: sum.splits)
  from s1 obtain p i where a: "self_allitems s1 = AList.update p i (self_allitems s)"
    and o: "case map_of (self_allitems s) p of
           Some i0 \<Rightarrow> oldpath i = oldpath i0 | None \<Rightarrow> oldpath i = None"
    by (rule scan_step_all)
  from Cons.IH [OF rest Cons.prems(2)]
  have "case map_of (self_allitems s1) k of
      Some i0 \<Rightarrow> oldpath j = oldpath i0 | None \<Rightarrow> oldpath j = None" .
  with o show ?case
    by (auto simp: a AList.update_conv' split: option.splits if_splits)
qed

lemma move_step_moved:
  assumes "move_step w root hs s r = Inr s'"
    and "\<And>k j. map_of (self_allitems s) k = Some j \<Longrightarrow>
           map_of (moveditems s) k = Some j \<or> map_of A k = Some j"
    and "map_of (self_allitems s') k = Some j"
  shows "map_of (moveditems s') k = Some j \<or> map_of A k = Some j"
  using assms(1)
proof (cases rule: move_step_cases)
  case skip
  with assms(2,3) show ?thesis by simp
next
  case (move a m)
  show ?thesis
  proof (cases "k = path m")
    case True
    with assms(3) show ?thesis by (simp add: move(8) AList.update_conv')
  next
    case False
    with assms(3) have "map_of (self_allitems s) k = Some j"
      by (simp add: move(8) AList.update_conv' AList.delete_conv' split: if_splits)
    from assms(2) [OF this] False show ?thesis
      by (simp add: move(8) AList.update_conv')
  qed
qed

lemma move_loop_moved:
  "move_loop w root hs s rs = Inr s' \<Longrightarrow>
   (\<And>k j. map_of (self_allitems s) k = Some j \<Longrightarrow>
            map_of (moveditems s) k = Some j \<or> map_of A k = Some j) \<Longrightarrow>
   map_of (self_allitems s') k = Some j \<Longrightarrow>
   map_of (moveditems s') k = Some j \<or> map_of A k = Some j"
proof (induction rs arbitrary: s)
  case Nil
  then show ?case by simp
next
  case (Cons r rs)
  from Cons.prems(1) obtain s1 where s1: "move_step w root hs s r = Inr s1"
    and rest: "move_loop w root hs s1 rs = Inr s'"
    by (auto split: sum.splits)
  have "\<And>k j. map_of (self_allitems s1) k = Some j \<Longrightarrow>
            map_of (moveditems s1) k = Some j \<or> map_of A k = Some j"
    using s1 Cons.prems(2) by (rule move_step_moved)
  from Cons.IH [OF rest this Cons.prems(3)] show ?case .
qed

subsection \<open>Listed paths that are gone when probed\<close>

lemma set_delete_subset: "set (AList.delete k d) \<subseteq> set d"
  by (auto simp: AList.delete_eq)

lemma subset_insert_both: "K \<subseteq> A \<union> B \<Longrightarrow> insert p K \<subseteq> A \<union> insert p B"
  by blast

lemma scan_step_keys:
  assumes "scan_step w root s raw = Inr s'"
  shows "set (removeditems s') \<subseteq> set (removeditems s)"
    and "fst ` set (self_allitems s) \<subseteq> A \<union> fst ` set (addeditems s) \<Longrightarrow>
         fst ` set (self_allitems s') \<subseteq> A \<union> fst ` set (addeditems s')"
proof -
  show "set (removeditems s') \<subseteq> set (removeditems s)"
    using assms by (cases rule: scan_step_cases) (simp_all add: set_delete_subset)
  assume a: "fst ` set (self_allitems s) \<subseteq> A \<union> fst ` set (addeditems s)"
  from assms show "fst ` set (self_allitems s') \<subseteq> A \<union> fst ` set (addeditems s')"
  proof (cases rule: scan_step_cases)
    case (new i)
    have e1: "fst ` set (self_allitems s') =
              insert (itempath_of root raw) (fst ` set (self_allitems s))"
      by (simp add: new(3) AList.dom_update)
    have e2: "fst ` set (addeditems s') =
              insert (itempath_of root raw) (fst ` set (addeditems s))"
      by (simp add: new(3) AList.dom_update)
    show ?thesis unfolding e1 e2 using a by (rule subset_insert_both)
  next
    case (old i0 i c)
    from old(1) have "itempath_of root raw \<in> fst ` set (self_allitems s)"
      by (rule map_of_in_keys)
    then have e1: "fst ` set (self_allitems s') = fst ` set (self_allitems s)"
      by (simp add: old(3) AList.dom_update insert_absorb)
    have e2: "fst ` set (addeditems s') = fst ` set (addeditems s)"
      by (simp add: old(3) keys_mutate)
    show ?thesis unfolding e1 e2 using a .
  qed
qed

lemma scan_keys:
  "scan w root s raws = Inr s' \<Longrightarrow>
   fst ` set (self_allitems s) \<subseteq> A \<union> fst ` set (addeditems s) \<Longrightarrow>
   set (removeditems s') \<subseteq> set (removeditems s) \<and>
   fst ` set (self_allitems s') \<subseteq> A \<union> fst ` set (addeditems s')"
proof (induction raws arbitrary: s)
  case Nil
  then show ?case by simp
next
  case (Cons raw raws)
  from Cons.prems(1) obtain s1 where s1: "scan_step w root s raw = Inr s1"
    and rest: "scan w root s1 raws = Inr s'"
    by (auto split: sum.splits)
  note K = scan_step_keys [OF s1]
  from Cons.IH [OF rest K(2) [OF Cons.prems(2)]]
  have i1: "set (removeditems s') \<subseteq> set (removeditems s1)"
    and i2: "fst ` set (self_allitems s') \<subseteq> A \<union> fst ` set (addeditems s')"
    by simp_all
  from i1 K(1) have "set (removeditems s') \<subseteq> set (removeditems s)" by (rule subset_trans)
  with i2 show ?case by simp
qed

lemma move_step_keeps_added:
  assumes inv: "tick_inv w root P s"
    and st: "move_step w root hs s r = Inr s'"
    and r: "itemtype r = Some File \<longrightarrow> hash r \<noteq> None"
    and p: "map_of (addeditems s) p = Some i" and h: "hash i = None"
  shows "map_of (addeditems s') p = Some i"
  using st
proof (cases rule: move_step_cases)
  case skip
  with p show ?thesis by simp
next
  case (move a m)
  note D = tick_invD [OF inv]
  from values_map_of [OF D(3) move(1)] obtain k where k: "map_of (addeditems s) k = Some a" ..
  then have "map_of (self_allitems s) k = Some a" by (rule D(6))
  then have pa: "path a = k" by (rule D(4))
  from r move(2,3) have "hash a \<noteq> None" by simp
  with h have "a \<noteq> i" by auto
  with k p have "k \<noteq> p" by auto
  with pa p show ?thesis by (simp add: move(8) AList.delete_conv')
qed

lemma move_loop_keeps_added:
  "tick_inv w root P s \<Longrightarrow> move_loop w root hs s rs = Inr s' \<Longrightarrow>
   (\<forall>r \<in> set rs. itemtype r = Some File \<longrightarrow> hash r \<noteq> None) \<Longrightarrow>
   map_of (addeditems s) p = Some i \<Longrightarrow> hash i = None \<Longrightarrow>
   map_of (addeditems s') p = Some i"
proof (induction rs arbitrary: s)
  case Nil
  then show ?case by simp
next
  case (Cons r rs)
  from Cons.prems(2) obtain s1 where s1: "move_step w root hs s r = Inr s1"
    and rest: "move_loop w root hs s1 rs = Inr s'"
    by (auto split: sum.splits)
  from Cons.prems(3) have r: "itemtype r = Some File \<longrightarrow> hash r \<noteq> None"
    and rs: "\<forall>r \<in> set rs. itemtype r = Some File \<longrightarrow> hash r \<noteq> None" by simp_all
  from move_step_keeps_added [OF Cons.prems(1) s1 r Cons.prems(4,5)]
  have p1: "map_of (addeditems s1) p = Some i" .
  from Cons.IH [OF move_step_inv [OF Cons.prems(1) s1] rest rs p1 Cons.prems(5)]
  show ?case .
qed

lemma settled_gone:
  assumes "settled w root i" and "fsys w (path_join root (path i)) = Nothing"
  shows "itemtype i = None \<and> hash i = None \<and> modtime i = None"
  using assms by (simp add: settled_iff kind_def)

subsection \<open>Where a moved item comes from\<close>

lemma scan_moved: "scan w root s raws = Inr s' \<Longrightarrow> moveditems s' = moveditems s"
proof (induction raws arbitrary: s)
  case Nil
  then show ?case by simp
next
  case (Cons raw raws)
  from Cons.prems obtain s1 where s1: "scan_step w root s raw = Inr s1"
    and rest: "scan w root s1 raws = Inr s'"
    by (auto split: sum.splits)
  from s1 have "moveditems s1 = moveditems s"
    by (cases rule: scan_step_cases) simp_all
  with Cons.IH [OF rest] show ?case by simp
qed

lemma move_step_origin:
  assumes inv: "tick_inv w root P s"
    and st: "move_step w root hs s r = Inr s'"
    and r0: "map_of S0 (path r) = Some r"
    and N: "\<And>k m. map_of (moveditems s) k = Some m \<Longrightarrow>
              k \<in> P \<and> map_of (self_allitems s) k = Some m \<and>
              (\<exists>r h. map_of S0 (path r) = Some r \<and> path r \<notin> P \<and>
                     TrackedItem_move w root r k h = Inr m \<and> oldpath m = Some (path r))"
    and km: "map_of (moveditems s') k = Some m"
  shows "k \<in> P \<and> map_of (self_allitems s') k = Some m \<and>
         (\<exists>r h. map_of S0 (path r) = Some r \<and> path r \<notin> P \<and>
                TrackedItem_move w root r k h = Inr m \<and> oldpath m = Some (path r))"
  using st
proof (cases rule: move_step_cases)
  case skip
  with N km show ?thesis by simp
next
  case (move a m')
  note D = tick_invD [OF inv]
  from values_map_of [OF D(3) move(1)] obtain ka where ka: "map_of (addeditems s) ka = Some a" ..
  then have kall: "map_of (self_allitems s) ka = Some a" by (rule D(6))
  then have pa: "path a = ka" by (rule D(4))
  from ka have "ka \<in> fst ` set (addeditems s)" by (rule map_of_in_keys)
  with D(8) have kP: "ka \<in> P" by blast
  with D(9) have kr: "ka \<notin> fst ` set (removeditems s)" by blast
  with kall have sa: "settled w root a" by (rule D(7))
  have ne: "path a \<noteq> path r"
  proof
    assume "path a = path r"
    with pa move(5) have "ka \<in> fst ` set (removeditems s)" by simp
    with kr show False by contradiction
  qed
  from move(5) D(9) have rP: "path r \<notin> P" by blast
  from move_settled [OF sa ne move(7)] have pm: "path m' = path a"
    and om: "oldpath m' = Some (path r)" by simp_all
  show ?thesis
  proof (cases "k = path a")
    case True
    with km have "m = m'" by (simp add: move(8) pm AList.update_conv')
    with True pa kP r0 rP move(7) om show ?thesis
      by (auto simp: move(8) pm AList.update_conv')
  next
    case False
    with km have "map_of (moveditems s) k = Some m"
      by (simp add: move(8) pm AList.update_conv')
    from N [OF this] have k1: "k \<in> P" and k2: "map_of (self_allitems s) k = Some m"
      and k3: "\<exists>r h. map_of S0 (path r) = Some r \<and> path r \<notin> P \<and>
                TrackedItem_move w root r k h = Inr m \<and> oldpath m = Some (path r)"
      by simp_all
    from k1 rP have "k \<noteq> path r" by auto
    with False k2 have "map_of (self_allitems s') k = Some m"
      by (simp add: move(8) pm AList.update_conv' AList.delete_conv')
    with k1 k3 show ?thesis by simp
  qed
qed

lemma move_loop_origin:
  "tick_inv w root P s \<Longrightarrow> move_loop w root hs s rs = Inr s' \<Longrightarrow>
   (\<forall>r \<in> set rs. map_of S0 (path r) = Some r) \<Longrightarrow>
   (\<And>k m. map_of (moveditems s) k = Some m \<Longrightarrow>
      k \<in> P \<and> map_of (self_allitems s) k = Some m \<and>
      (\<exists>r h. map_of S0 (path r) = Some r \<and> path r \<notin> P \<and>
             TrackedItem_move w root r k h = Inr m \<and> oldpath m = Some (path r))) \<Longrightarrow>
   map_of (moveditems s') k = Some m \<Longrightarrow>
   k \<in> P \<and> map_of (self_allitems s') k = Some m \<and>
   (\<exists>r h. map_of S0 (path r) = Some r \<and> path r \<notin> P \<and>
          TrackedItem_move w root r k h = Inr m \<and> oldpath m = Some (path r))"
proof (induction rs arbitrary: s)
  case Nil
  then show ?case by simp
next
  case (Cons r rs)
  from Cons.prems(2) obtain s1 where s1: "move_step w root hs s r = Inr s1"
    and rest: "move_loop w root hs s1 rs = Inr s'"
    by (auto split: sum.splits)
  from Cons.prems(3) have r0: "map_of S0 (path r) = Some r"
    and rs: "\<forall>r \<in> set rs. map_of S0 (path r) = Some r" by simp_all
  have N1: "\<And>k m. map_of (moveditems s1) k = Some m \<Longrightarrow>
      k \<in> P \<and> map_of (self_allitems s1) k = Some m \<and>
      (\<exists>r h. map_of S0 (path r) = Some r \<and> path r \<notin> P \<and>
             TrackedItem_move w root r k h = Inr m \<and> oldpath m = Some (path r))"
    using Cons.prems(1) s1 r0 Cons.prems(4) by (rule move_step_origin)
  from Cons.IH [OF move_step_inv [OF Cons.prems(1) s1] rest rs N1 Cons.prems(5)]
  show ?case .
qed

subsection \<open>C1: a tick can raise\<close>

text \<open>
  C1 says that a tick never raises and that move detection takes at most one match per hash
  value, also when several tentatively removed files share a hash. The code tests
  \<^verbatim>\<open>removeditem.hash in addedhashes\<close> against the list built before the loop and then
  takes element 0 of the added items that still have that hash. With two removed files
  \<open>a.txt\<close> and \<open>b.txt\<close> of the same content and one new file \<open>c.txt\<close> of that content, the
  first removed file takes \<open>c.txt\<close>, and for the second the test still succeeds while the
  list of candidates is empty: the tick raises \<^verbatim>\<open>IndexError\<close>, for every md5 function
  \<open>h\<close>, content \<open>c\<close> and modification times.
\<close>

theorem update_IndexError:
  "ChangeTracker_update
     \<lparr>md5 = h,
      fsys = (\<lambda>p. if p = ''/r/c.txt''
                  then Regular \<lparr>content = c, mtime = t, denied = False, badread = None\<rparr>
                  else Nothing)\<rparr>
     [''/r/c.txt'']
     \<lparr>tpath = ''/r'', handler = hf,
      allitems =
        [(''a.txt'', \<lparr>path = ''a.txt'', ct = Some Self, oldpath = None,
                      itemtype = Some File, hash = Some (h c), modtime = Some ta\<rparr>),
         (''b.txt'', \<lparr>path = ''b.txt'', ct = Some Self, oldpath = None,
                      itemtype = Some File, hash = Some (h c), modtime = Some tb\<rparr>)]\<rparr>
   = Inl IndexError"
  by (simp add: ChangeTracker_update_def scan_step_def itempath_of_def TrackedItem_init_def
      TrackedItem_update_def abspath_def path_join_def hashfile_def hashfile_io_def
      read_loop_all stat_mtime_def dvalues_def move_step_def pydel_def TrackedItem_move_def
      Let_def)

theorem update_IndexError_witness:
  "ChangeTracker_update
     \<lparr>md5 = (\<lambda>bytes. take 16 bytes),
      fsys = (\<lambda>p. if p = ''/r/c.txt''
                  then Regular \<lparr>content = [], mtime = 3, denied = False, badread = None\<rparr>
                  else Nothing)\<rparr>
     [''/r/c.txt'']
     \<lparr>tpath = ''/r'', handler = True,
      allitems =
        [(''a.txt'', \<lparr>path = ''a.txt'', ct = Some Self, oldpath = None,
                      itemtype = Some File, hash = Some [], modtime = Some 1\<rparr>),
         (''b.txt'', \<lparr>path = ''b.txt'', ct = Some Self, oldpath = None,
                      itemtype = Some File, hash = Some [], modtime = Some 2\<rparr>)]\<rparr>
   = Inl IndexError"
  using update_IndexError [of "\<lambda>bytes. take 16 bytes" "[]" 3 True 1 2] by simp

subsection \<open>C8: loadstate without a file\<close>

text \<open>
  C8 says that loading from a file that does not exist or cannot be read gives an empty
  snapshot, whatever the tracker held before. The code passes over the \<^verbatim>\<open>IOError\<close> and
  assigns nothing: the call raises nothing and the tracker is exactly as it was, so its
  snapshot is empty only if it was empty before the call.
\<close>

theorem loadstate_missing_keeps:
  assumes "disk (default_filename filename) = NoFile \<or> disk (default_filename filename) = NoAccess"
  shows "loadstate loads self filename disk = Inr self"
  using assms by (auto simp: loadstate_def)

theorem loadstate_missing_keeps_witness:
  "loadstate (\<lambda>b. Inr b)
     \<lparr>tpath = ''/r'', handler = True,
      allitems = [(''a.txt'', \<lparr>path = ''a.txt'', ct = Some Self, oldpath = None,
                    itemtype = Some File, hash = Some ''h'', modtime = Some 1\<rparr>)]\<rparr>
     None (\<lambda>n. NoFile)
   = Inr \<lparr>tpath = ''/r'', handler = True,
      allitems = [(''a.txt'', \<lparr>path = ''a.txt'', ct = Some Self, oldpath = None,
                    itemtype = Some File, hash = Some ''h'', modtime = Some 1\<rparr>)]\<rparr>"
  using loadstate_missing_keeps [of "\<lambda>n. NoFile" None "\<lambda>b. Inr b"] by simp

theorem loadstate_missing_not_empty:
  "loadstate (\<lambda>b. Inr b)
     \<lparr>tpath = ''/r'', handler = True,
      allitems = [(''a.txt'', \<lparr>path = ''a.txt'', ct = Some Self, oldpath = None,
                    itemtype = Some File, hash = Some ''h'', modtime = Some 1\<rparr>)]\<rparr>
     None (\<lambda>n. NoFile)
   \<noteq> Inr \<lparr>tpath = ''/r'', handler = True, allitems = []\<rparr>"
  by (simp add: loadstate_def default_filename_def)

subsection \<open>C4: what a refresh does with the modification time\<close>

text \<open>
  The whole result of \<^verbatim>\<open>TrackedItem.update\<close> on a readable regular file, with and without
  hashing: the time read with \<^verbatim>\<open>os.stat\<close> is stored on the initial refresh and when it is
  strictly greater than the stored one (a stored \<^verbatim>\<open>None\<close> is less than every time), and
  the returned flag says that the call is not the initial one and the time read is strictly
  greater than the stored one.
\<close>

lemma update_modtime:
  assumes "ct self = Some Self" and "fsys w (path_join root (path self)) = Regular f"
    and "\<not> denied f" and "badread f = None"
  shows "TrackedItem_update w root self init dohash =
         Inr (self\<lparr>itemtype := Some File,
                   hash := (if dohash then Some (md5 w (content f)) else None),
                   modtime := (if init \<or> modtime self < Some (mtime f) then Some (mtime f)
                               else modtime self)\<rparr>,
              \<not> init \<and> modtime self < Some (mtime f))"
proof (cases dohash)
  case True
  have "read_loop (badread f) 0 (content f) [] = Inr (content f)"
    using assms(4) by (simp add: read_loop_all)
  with assms(1,2,3) True show ?thesis
    by (simp add: update_file_hash [where f = f])
next
  case False
  with assms(1,2) show ?thesis
    by (simp add: update_file_nohash [where f = f])
qed

text \<open>
  C4 says that a refresh of a file always recomputes modTime from the filesystem. The
  docstring of \<^verbatim>\<open>update\<close> says so too: \<^verbatim>\<open>Updates the current state (itemtype, existence)
  and modtime of the item\<close>, \<^verbatim>\<open>return True if modtime has changed on a file\<close>, and the
  field is commented \<^verbatim>\<open>last modification time, if item is a file\<close>. The code assigns
  \<^verbatim>\<open>self.modtime\<close> only under \<^verbatim>\<open>init\<close> or \<^verbatim>\<open>newmodtime > self.modtime\<close>. When the file
  now has a time that is smaller than the stored one (an older version was put in its place),
  a refresh that is not the initial one reads the file's time, leaves the stored time as it
  is and returns \<^verbatim>\<open>False\<close>: the item carries a modification time that is not the file's.
\<close>

theorem update_keeps_stale_modtime:
  assumes "ct self = Some Self" and "fsys w (path_join root (path self)) = Regular f"
    and "\<not> denied f" and "badread f = None"
    and "modtime self = Some old" and "mtime f < old"
  shows "stat_mtime w (path_join root (path self)) = Inr (mtime f)
       \<and> TrackedItem_update w root self False True =
           Inr (self\<lparr>itemtype := Some File, hash := Some (md5 w (content f)),
                     modtime := Some old\<rparr>, False)"
proof -
  have "stat_mtime w (path_join root (path self)) = Inr (mtime f)"
    by (simp add: stat_mtime_def assms(2))
  moreover have "TrackedItem_update w root self False True =
           Inr (self\<lparr>itemtype := Some File, hash := Some (md5 w (content f)),
                     modtime := Some old\<rparr>, False)"
    using assms(5,6) by (simp add: update_modtime [OF assms(1,2,3,4)])
  ultimately show ?thesis by simp
qed

text \<open>
  The stored time is 10 and the file now has time 5: after the refresh the item still says
  10, and the refresh reports no change.
\<close>

theorem update_modtime_not_recomputed:
  "stat_mtime
     \<lparr>md5 = (\<lambda>bytes. take 16 bytes),
      fsys = (\<lambda>p. if p = ''/r/a.txt''
                  then Regular \<lparr>content = ''new'', mtime = 5, denied = False, badread = None\<rparr>
                  else Nothing)\<rparr>
     ''/r/a.txt'' = Inr 5
   \<and> TrackedItem_update
     \<lparr>md5 = (\<lambda>bytes. take 16 bytes),
      fsys = (\<lambda>p. if p = ''/r/a.txt''
                  then Regular \<lparr>content = ''new'', mtime = 5, denied = False, badread = None\<rparr>
                  else Nothing)\<rparr>
     ''/r''
     \<lparr>path = ''a.txt'', ct = Some Self, oldpath = None, itemtype = Some File,
      hash = Some ''old'', modtime = Some 10\<rparr>
     False True
   = Inr (\<lparr>path = ''a.txt'', ct = Some Self, oldpath = None, itemtype = Some File,
           hash = Some ''new'', modtime = Some 10\<rparr>, False)"
  using update_keeps_stale_modtime
    [of "\<lparr>path = ''a.txt'', ct = Some Self, oldpath = None, itemtype = Some File,
          hash = Some ''old'', modtime = Some 10\<rparr>"
        "\<lparr>md5 = (\<lambda>bytes. take 16 bytes),
          fsys = (\<lambda>p. if p = ''/r/a.txt''
                      then Regular \<lparr>content = ''new'', mtime = 5, denied = False,
                                    badread = None\<rparr>
                      else Nothing)\<rparr>"
        "''/r''"
        "\<lparr>content = ''new'', mtime = 5, denied = False, badread = None\<rparr>"
        10]
  by (simp add: path_join_def)

subsection \<open>C6: the file handle of hashfile\<close>

text \<open>
  C6 says that the handle used for hashing is opened, read to the end and closed within the
  refresh, that it is released also when a read fails partway, and that a failed read
  leaves the item unhashed or absent. \<^verbatim>\<open>hashfile\<close> has no \<^verbatim>\<open>try\<close>: when every read
  succeeds the handle is closed and the hash is the digest of the whole content; when
  read number \<open>k\<close> raises and the loop gets that far (\<open>32 * k \<le> length + 31\<close>), the
  \<^verbatim>\<open>IOError\<close> leaves \<^verbatim>\<open>hashfile\<close> and the refresh, and \<^verbatim>\<open>fs.close ()\<close> is not reached.
\<close>

theorem hashfile_handle:
  assumes "ct self = Some Self" and "fsys w (path_join root (path self)) = Regular f"
    and "\<not> denied f" and "itemtype self = Some File"
  shows "(badread f = None \<longrightarrow>
            hashfile_io w root self =
              (Closed, Inr (self\<lparr>hash := Some (md5 w (content f))\<rparr>)))
       \<and> (\<forall>k. badread f = Some k \<and> 32 * k \<le> length (content f) + 31 \<longrightarrow>
            hashfile_io w root self = (StillOpen, Inl IOError)
            \<and> TrackedItem_update w root self init True = Inl IOError)"
proof (intro conjI impI allI)
  assume "badread f = None"
  then show "hashfile_io w root self = (Closed, Inr (self\<lparr>hash := Some (md5 w (content f))\<rparr>))"
    using assms by (simp add: hashfile_io_file [where f = f] read_loop_all)
next
  fix k
  assume k: "badread f = Some k \<and> 32 * k \<le> length (content f) + 31"
  then have r: "read_loop (badread f) 0 (content f) [] = Inl IOError"
    by (simp add: read_loop_bad)
  then show "hashfile_io w root self = (StillOpen, Inl IOError)"
    using assms by (simp add: hashfile_io_file [where f = f])
  from r show "TrackedItem_update w root self init True = Inl IOError"
    using assms(1,2) by (simp add: update_file_raise [where f = f])
qed

theorem hashfile_handle_witness:
  "hashfile_io
     \<lparr>md5 = (\<lambda>bytes. take 16 bytes),
      fsys = (\<lambda>p. if p = ''/r/a.txt''
                  then Regular \<lparr>content = replicate 40 CHR ''x'', mtime = 7, denied = False,
                                badread = Some 1\<rparr>
                  else Nothing)\<rparr>
     ''/r''
     \<lparr>path = ''a.txt'', ct = Some Self, oldpath = None, itemtype = Some File,
      hash = Some ''old'', modtime = Some 5\<rparr>
   = (StillOpen, Inl IOError)"
  using hashfile_handle
    [of "\<lparr>path = ''a.txt'', ct = Some Self, oldpath = None, itemtype = Some File,
          hash = Some ''old'', modtime = Some 5\<rparr>"
        "\<lparr>md5 = (\<lambda>bytes. take 16 bytes),
          fsys = (\<lambda>p. if p = ''/r/a.txt''
                      then Regular \<lparr>content = replicate 40 CHR ''x'', mtime = 7,
                                    denied = False, badread = Some 1\<rparr>
                      else Nothing)\<rparr>"
        "''/r''"
        "\<lparr>content = replicate 40 CHR ''x'', mtime = 7, denied = False, badread = Some 1\<rparr>"
        False]
  by (simp add: path_join_def)

text \<open>The first read of a one byte file raises: the handle stays open and the refresh raises.\<close>

theorem hashfile_handle_leak:
  "hashfile_io
     \<lparr>md5 = (\<lambda>bytes. take 16 bytes),
      fsys = (\<lambda>p. if p = ''/r/a.txt''
                  then Regular \<lparr>content = ''x'', mtime = 7, denied = False, badread = Some 0\<rparr>
                  else Nothing)\<rparr>
     ''/r''
     \<lparr>path = ''a.txt'', ct = Some Self, oldpath = None, itemtype = Some File,
      hash = Some ''old'', modtime = Some 5\<rparr>
   = (StillOpen, Inl IOError)
   \<and> TrackedItem_update
     \<lparr>md5 = (\<lambda>bytes. take 16 bytes),
      fsys = (\<lambda>p. if p = ''/r/a.txt''
                  then Regular \<lparr>content = ''x'', mtime = 7, denied = False, badread = Some 0\<rparr>
                  else Nothing)\<rparr>
     ''/r''
     \<lparr>path = ''a.txt'', ct = Some Self, oldpath = None, itemtype = Some File,
      hash = Some ''old'', modtime = Some 5\<rparr>
     False True
   = Inl IOError"
  by (simp add: TrackedItem_update_def abspath_def path_join_def hashfile_def hashfile_io_def
      read_loop_raise Let_def)

subsection \<open>C10: key coherence\<close>

text \<open>
  C10: every item of the snapshot is stored under its own path, and every tick keeps it so,
  also when an item is moved: it is deleted under its old key, \<^verbatim>\<open>move\<close> sets its path, and
  it is stored under the new path. For a snapshot with distinct keys that is key coherent, a
  tick that returns leaves a snapshot with distinct keys that is key coherent.
\<close>

theorem update_key_coherence:
  assumes "distinct (map fst (allitems self))" and "coherent (allitems self)"
    and "ChangeTracker_update w listing self = Inr out"
  shows "coherent (allitems (after out)) \<and> distinct (map fst (allitems (after out)))"
proof -
  from assms(1,2) have "snapshot_ok (allitems self)" by (simp add: snapshot_ok_def)
  from tick_result(1) [OF this assms(3)] show ?thesis by (simp add: snapshot_ok_def)
qed

theorem update_key_coherence_witness:
  "coherent
     [(''b.txt'', \<lparr>path = ''b.txt'', ct = Some Self, oldpath = Some ''a.txt'',
                   itemtype = Some File, hash = Some ''x'', modtime = Some 5\<rparr>)]
   \<and> distinct (map fst
     [(''b.txt'', \<lparr>path = ''b.txt'', ct = Some Self, oldpath = Some ''a.txt'',
                   itemtype = Some File, hash = Some ''x'', modtime = Some 5\<rparr>)])"
proof -
  let ?w = "\<lparr>md5 = (\<lambda>bytes. take 16 bytes),
             fsys = (\<lambda>p. if p = ''/r/b.txt''
                         then Regular \<lparr>content = ''x'', mtime = 5, denied = False,
                                       badread = None\<rparr>
                         else Nothing)\<rparr>"
  let ?self = "\<lparr>tpath = ''/r'', handler = True,
      allitems = [(''a.txt'', \<lparr>path = ''a.txt'', ct = Some Self, oldpath = None,
                    itemtype = Some File, hash = Some ''x'', modtime = Some 1\<rparr>)]\<rparr>"
  let ?moved = "\<lparr>path = ''b.txt'', ct = Some Self, oldpath = Some ''a.txt'',
                   itemtype = Some File, hash = Some ''x'', modtime = Some 5\<rparr>"
  let ?out = "\<lparr>after = \<lparr>tpath = ''/r'', handler = True, allitems = [(''b.txt'', ?moved)]\<rparr>,
               removed = [], added = [], changed = [], moved = [(''b.txt'', ?moved)],
               calls = [on_moved ?moved]\<rparr>"
  have d: "distinct (map fst (allitems ?self))" by simp
  have c: "coherent (allitems ?self)" by (simp add: coherent_def)
  have t: "ChangeTracker_update ?w [''/r/b.txt''] ?self = Inr ?out"
    by (simp add: ChangeTracker_update_def scan_step_def itempath_of_def TrackedItem_init_def
        TrackedItem_update_def abspath_def path_join_def hashfile_def hashfile_io_def
        read_loop_all stat_mtime_def dvalues_def move_step_def pydel_def TrackedItem_move_def
        Let_def)
  from update_key_coherence [OF d c t] show ?thesis by simp
qed

subsection \<open>C9: a second tick on an unchanged filesystem\<close>

text \<open>
  C9: a second tick right after a first one, with nothing changed in the filesystem, reports
  nothing. For a snapshot with distinct keys that is key coherent: when a tick returns, the
  next tick in the same world with the same listing returns too, its four event dictionaries
  are empty, no callback is made, and the tracker stays as the first tick left it.
\<close>

theorem second_tick_quiet:
  assumes "distinct (map fst (allitems self))" and "coherent (allitems self)"
    and "ChangeTracker_update w listing self = Inr out"
  shows "ChangeTracker_update w listing (after out) =
           Inr \<lparr>after = after out, removed = [], added = [], changed = [], moved = [],
                calls = []\<rparr>"
proof -
  from assms(1,2) have ok: "snapshot_ok (allitems self)" by (simp add: snapshot_ok_def)
  note R = tick_result [OF ok assms(3)]
  let ?s = "\<lparr>self_allitems = allitems (after out), removeditems = allitems (after out),
             addeditems = [], changeditems = [], moveditems = []\<rparr>"
  have d: "distinct (map fst (self_allitems ?s))"
    using R(1) by (simp add: snapshot_ok_def)
  have s: "\<And>p. p \<in> itempath_of (tpath (after out)) ` set listing \<Longrightarrow>
             \<exists>i. map_of (self_allitems ?s) p = Some i \<and> settled w (tpath (after out)) i"
  proof -
    fix p
    assume "p \<in> itempath_of (tpath (after out)) ` set listing"
    then have "p \<in> fst ` set (allitems (after out))" by (simp add: R(2) R(4))
    then obtain i where i: "map_of (allitems (after out)) p = Some i"
      by (auto simp: in_keys_iff)
    from R(3) [OF i] have "settled w (tpath (after out)) i" by (simp add: R(4))
    with i show "\<exists>i. map_of (self_allitems ?s) p = Some i \<and> settled w (tpath (after out)) i"
      by simp
  qed
  from scan_settled [of ?s "tpath (after out)" listing w, OF d s]
  obtain r where sc: "scan w (tpath (after out)) ?s listing = Inr (?s\<lparr>removeditems := r\<rparr>)"
    and kr: "fst ` set r = fst ` set (removeditems ?s)
               - itempath_of (tpath (after out)) ` set listing"
    by auto
  from kr have "fst ` set r = {}" by (simp add: R(2) R(4))
  then have r: "r = []" by simp
  show ?thesis
    by (simp add: ChangeTracker_update_def sc r dvalues_def)
qed

theorem second_tick_quiet_witness:
  "ChangeTracker_update
     \<lparr>md5 = (\<lambda>bytes. take 16 bytes),
      fsys = (\<lambda>p. if p = ''/r/a.txt''
                  then Regular \<lparr>content = ''x'', mtime = 5, denied = False, badread = None\<rparr>
                  else Nothing)\<rparr>
     [''/r/a.txt'']
     \<lparr>tpath = ''/r'', handler = True,
      allitems = [(''a.txt'', \<lparr>path = ''a.txt'', ct = Some Self, oldpath = None,
                    itemtype = Some File, hash = Some ''x'', modtime = Some 5\<rparr>)]\<rparr>
   = Inr \<lparr>after = \<lparr>tpath = ''/r'', handler = True,
              allitems = [(''a.txt'', \<lparr>path = ''a.txt'', ct = Some Self, oldpath = None,
                            itemtype = Some File, hash = Some ''x'', modtime = Some 5\<rparr>)]\<rparr>,
          removed = [], added = [], changed = [], moved = [], calls = []\<rparr>"
proof -
  let ?w = "\<lparr>md5 = (\<lambda>bytes. take 16 bytes),
             fsys = (\<lambda>p. if p = ''/r/a.txt''
                         then Regular \<lparr>content = ''x'', mtime = 5, denied = False,
                                       badread = None\<rparr>
                         else Nothing)\<rparr>"
  let ?self = "\<lparr>tpath = ''/r'', handler = True, allitems = []\<rparr>"
  let ?new = "\<lparr>path = ''a.txt'', ct = Some Self, oldpath = None,
                itemtype = Some File, hash = Some ''x'', modtime = Some 5\<rparr>"
  let ?out = "\<lparr>after = \<lparr>tpath = ''/r'', handler = True, allitems = [(''a.txt'', ?new)]\<rparr>,
               removed = [], added = [(''a.txt'', ?new)], changed = [], moved = [],
               calls = [on_added ?new]\<rparr>"
  have d: "distinct (map fst (allitems ?self))" by simp
  have c: "coherent (allitems ?self)" by (simp add: coherent_def)
  have t: "ChangeTracker_update ?w [''/r/a.txt''] ?self = Inr ?out"
    by (simp add: ChangeTracker_update_def scan_step_def itempath_of_def TrackedItem_init_def
        TrackedItem_update_def abspath_def path_join_def hashfile_def hashfile_io_def
        read_loop_all stat_mtime_def dvalues_def Let_def)
  from second_tick_quiet [OF d c t] show ?thesis by simp
qed

subsection \<open>C7: saving and loading a snapshot\<close>

text \<open>
  C7: loading a saved snapshot restores it, every item with its path, type, hash and
  modification time, and the saved form holds no reference to the tracker. \<^verbatim>\<open>pickle\<close> is
  outside the program; it is assumed to give back what was dumped. \<^verbatim>\<open>savestate\<close> keys
  the saved dictionary by the items' own paths, so the snapshot has to be key coherent (C10).
  Then the file holds the items with \<^verbatim>\<open>ct = None\<close>, and \<^verbatim>\<open>loadstate\<close> on that file gives
  the tracker that loads it the same dictionary, each item with all its fields (also
  \<^verbatim>\<open>oldpath\<close>) and with \<^verbatim>\<open>ct\<close> set to that tracker: the snapshot itself when its items
  belonged to the tracker.
\<close>

theorem save_load_roundtrip:
  assumes "\<forall>d. loads (dumps d) = Inr d"
    and "distinct (map fst (allitems self))" and "coherent (allitems self)"
    and "disk (default_filename filename) \<noteq> NoAccess"
  shows "savestate dumps self filename disk =
           Inr (disk(default_filename filename := Data (dumps (pickleditems_of self))))
       \<and> (\<forall>(k, i) \<in> set (pickleditems_of self). ct i = None)
       \<and> loadstate loads other filename
            (disk(default_filename filename := Data (dumps (pickleditems_of self))))
           = Inr (other\<lparr>allitems :=
                    map (\<lambda>(k, i). (k, i\<lparr>ct := Some Self\<rparr>)) (allitems self)\<rparr>)
       \<and> ((\<forall>(k, i) \<in> set (allitems self). ct i = Some Self) \<longrightarrow>
            map (\<lambda>(k, i). (k, i\<lparr>ct := Some Self\<rparr>)) (allitems self) = allitems self)"
proof (intro conjI)
  from assms(2,3) have ok: "snapshot_ok (allitems self)" by (simp add: snapshot_ok_def)
  note pk = pickleditems_of_snapshot [OF ok]
  show "savestate dumps self filename disk =
           Inr (disk(default_filename filename := Data (dumps (pickleditems_of self))))"
    using assms(4) by (simp add: savestate_def)
  show "\<forall>(k, i) \<in> set (pickleditems_of self). ct i = None"
    by (auto simp: pickleditems_of_def)
  have "map (\<lambda>(k, i). (k, i\<lparr>ct := Some Self\<rparr>)) (pickleditems_of self) =
        map (\<lambda>(k, i). (k, i\<lparr>ct := Some Self\<rparr>)) (allitems self)"
    by (simp add: pk split_def)
  then show "loadstate loads other filename
            (disk(default_filename filename := Data (dumps (pickleditems_of self))))
           = Inr (other\<lparr>allitems :=
                    map (\<lambda>(k, i). (k, i\<lparr>ct := Some Self\<rparr>)) (allitems self)\<rparr>)"
    using assms(1) by (simp add: loadstate_def)
  show "(\<forall>(k, i) \<in> set (allitems self). ct i = Some Self) \<longrightarrow>
            map (\<lambda>(k, i). (k, i\<lparr>ct := Some Self\<rparr>)) (allitems self) = allitems self"
  proof
    assume a: "\<forall>(k, i) \<in> set (allitems self). ct i = Some Self"
    have "map (\<lambda>(k, i). (k, i\<lparr>ct := Some Self\<rparr>)) (allitems self) = map (\<lambda>x. x) (allitems self)"
    proof (rule map_cong [OF refl])
      fix x
      assume "x \<in> set (allitems self)"
      with a have "ct (snd x) = Some Self" by (cases x) auto
      then have "(snd x)\<lparr>ct := Some Self\<rparr> = snd x" by (cases "snd x") simp
      then show "(case x of (k, i) \<Rightarrow> (k, i\<lparr>ct := Some Self\<rparr>)) = x" by (cases x) simp
    qed
    then show "map (\<lambda>(k, i). (k, i\<lparr>ct := Some Self\<rparr>)) (allitems self) = allitems self"
      by simp
  qed
qed

theorem save_load_roundtrip_witness:
  "savestate (\<lambda>d. d)
     \<lparr>tpath = ''/r'', handler = True,
      allitems = [(''a.txt'', \<lparr>path = ''a.txt'', ct = Some Self, oldpath = None,
                    itemtype = Some File, hash = Some ''h'', modtime = Some 1\<rparr>)]\<rparr>
     None (\<lambda>n. NoFile)
   = Inr ((\<lambda>n. NoFile)(''ChangeTracker'' :=
        Data [(''a.txt'', \<lparr>path = ''a.txt'', ct = None, oldpath = None,
                 itemtype = Some File, hash = Some ''h'', modtime = Some 1\<rparr>)]))
   \<and> loadstate (\<lambda>b. Inr b) \<lparr>tpath = ''/r'', handler = True, allitems = []\<rparr> None
       ((\<lambda>n. NoFile)(''ChangeTracker'' :=
        Data [(''a.txt'', \<lparr>path = ''a.txt'', ct = None, oldpath = None,
                 itemtype = Some File, hash = Some ''h'', modtime = Some 1\<rparr>)]))
   = Inr \<lparr>tpath = ''/r'', handler = True,
      allitems = [(''a.txt'', \<lparr>path = ''a.txt'', ct = Some Self, oldpath = None,
                    itemtype = Some File, hash = Some ''h'', modtime = Some 1\<rparr>)]\<rparr>"
  using save_load_roundtrip
    [of "\<lambda>b. Inr b" "\<lambda>d. d"
        "\<lparr>tpath = ''/r'', handler = True,
          allitems = [(''a.txt'', \<lparr>path = ''a.txt'', ct = Some Self, oldpath = None,
                        itemtype = Some File, hash = Some ''h'', modtime = Some 1\<rparr>)]\<rparr>"
        "\<lambda>n. NoFile" None
        "\<lparr>tpath = ''/r'', handler = True, allitems = []\<rparr>"]
  by (simp add: coherent_def default_filename_def pickleditems_of_def dvalues_def)

subsection \<open>C2: a move is detected, unless the root ends in a slash\<close>

text \<open>
  Move detection for a root that is not empty and does not end in a slash. The previous
  snapshot holds exactly one file \<open>a.txt\<close> with hash \<open>H\<close>; the listing is what
  \<^verbatim>\<open>recursive_list\<close> yields for the one entry \<open>b.txt\<close>, a readable file whose content
  hashes to \<open>H\<close>. Then the tick reports exactly one moved item, \<open>b.txt\<close> with \<^verbatim>\<open>oldpath\<close>
  \<open>a.txt\<close>, nothing added, removed or changed, and the new snapshot maps \<open>b.txt\<close> to the
  relocated item.
\<close>

theorem move_detected:
  assumes "root \<noteq> []" and "last root \<noteq> CHR ''/''"
    and "fsys w (path_join root ''b.txt'') = Regular f"
    and "\<not> denied f" and "badread f = None" and "md5 w (content f) = H"
  shows "ChangeTracker_update w [path_join root ''b.txt'']
           \<lparr>tpath = root, handler = hf,
            allitems = [(''a.txt'', \<lparr>path = ''a.txt'', ct = Some Self, oldpath = op,
                          itemtype = Some File, hash = Some H, modtime = mt\<rparr>)]\<rparr>
         = Inr \<lparr>after = \<lparr>tpath = root, handler = hf,
                   allitems = [(''b.txt'',
                     \<lparr>path = ''b.txt'', ct = Some Self, oldpath = Some ''a.txt'',
                      itemtype = Some File, hash = Some H,
                      modtime = (if mt < Some (mtime f) then Some (mtime f) else mt)\<rparr>)]\<rparr>,
                removed = [], added = [], changed = [],
                moved = [(''b.txt'',
                     \<lparr>path = ''b.txt'', ct = Some Self, oldpath = Some ''a.txt'',
                      itemtype = Some File, hash = Some H,
                      modtime = (if mt < Some (mtime f) then Some (mtime f) else mt)\<rparr>)],
                calls = (if hf then
                   [on_moved \<lparr>path = ''b.txt'', ct = Some Self, oldpath = Some ''a.txt'',
                      itemtype = Some File, hash = Some H,
                      modtime = (if mt < Some (mtime f) then Some (mtime f) else mt)\<rparr>]
                   else [])\<rparr>"
proof -
  have ip: "itempath_of root (path_join root ''b.txt'') = ''b.txt''"
    using assms(1,2) by (intro itempath_of_join) simp_all
  let ?new = "\<lparr>path = ''b.txt'', ct = Some Self, oldpath = None, itemtype = None,
               hash = None, modtime = None\<rparr>"
  have rl: "read_loop (badread f) 0 (content f) [] = Inr (content f)"
    using assms(5) by (simp add: read_loop_all)
  have init: "TrackedItem_init w root ''b.txt'' =
      Inr \<lparr>path = ''b.txt'', ct = Some Self, oldpath = None, itemtype = Some File,
           hash = Some H, modtime = Some (mtime f)\<rparr>"
    using update_file_hash [of ?new w root f "content f" True] assms(3,4,6) rl
    by (simp add: TrackedItem_init_def)
  let ?a1 = "\<lparr>path = ''b.txt'', ct = Some Self, oldpath = Some ''a.txt'',
              itemtype = Some File, hash = Some H, modtime = mt\<rparr>"
  have mv: "TrackedItem_move w root
      \<lparr>path = ''a.txt'', ct = Some Self, oldpath = op, itemtype = Some File,
       hash = Some H, modtime = mt\<rparr> ''b.txt'' (Some H) =
      Inr \<lparr>path = ''b.txt'', ct = Some Self, oldpath = Some ''a.txt'',
           itemtype = Some File, hash = Some H,
           modtime = (if mt < Some (mtime f) then Some (mtime f) else mt)\<rparr>"
    using update_file_nohash [of ?a1 w root f False] assms(3)
    by (simp add: TrackedItem_move_def)
  show ?thesis
    by (simp add: ChangeTracker_update_def scan_step_def ip init dvalues_def move_step_def
        pydel_def mv Let_def)
qed


theorem move_detected_witness:
  "ChangeTracker_update
     \<lparr>md5 = (\<lambda>bytes. take 16 bytes),
      fsys = (\<lambda>p. if p = ''/r/b.txt''
                  then Regular \<lparr>content = ''x'', mtime = 5, denied = False, badread = None\<rparr>
                  else Nothing)\<rparr>
     [''/r/b.txt'']
     \<lparr>tpath = ''/r'', handler = True,
      allitems = [(''a.txt'', \<lparr>path = ''a.txt'', ct = Some Self, oldpath = None,
                    itemtype = Some File, hash = Some ''x'', modtime = Some 1\<rparr>)]\<rparr>
   = Inr \<lparr>after = \<lparr>tpath = ''/r'', handler = True,
             allitems = [(''b.txt'', \<lparr>path = ''b.txt'', ct = Some Self,
                           oldpath = Some ''a.txt'', itemtype = Some File, hash = Some ''x'',
                           modtime = Some 5\<rparr>)]\<rparr>,
          removed = [], added = [], changed = [],
          moved = [(''b.txt'', \<lparr>path = ''b.txt'', ct = Some Self,
                           oldpath = Some ''a.txt'', itemtype = Some File, hash = Some ''x'',
                           modtime = Some 5\<rparr>)],
          calls = [on_moved \<lparr>path = ''b.txt'', ct = Some Self,
                           oldpath = Some ''a.txt'', itemtype = Some File, hash = Some ''x'',
                           modtime = Some 5\<rparr>]\<rparr>"
  using move_detected
    [of "''/r''"
        "\<lparr>md5 = (\<lambda>bytes. take 16 bytes),
          fsys = (\<lambda>p. if p = ''/r/b.txt''
                      then Regular \<lparr>content = ''x'', mtime = 5, denied = False,
                                    badread = None\<rparr>
                      else Nothing)\<rparr>"
        "\<lparr>content = ''x'', mtime = 5, denied = False, badread = None\<rparr>"
        "''x''" True None "Some 1"]
  by (simp add: path_join_def)

text \<open>
  C2 says that with the previous snapshot \<open>{a.txt: H}\<close>, \<open>a.txt\<close> gone and a new file
  \<open>b.txt\<close> of hash \<open>H\<close>, the tick reports exactly the move of \<open>a.txt\<close> to \<open>b.txt\<close>, for any
  root. The code takes the item path with \<^verbatim>\<open>itempath [len(self.path)+1:]\<close>, which skips
  one character for the separator that \<^verbatim>\<open>os.path.join\<close> puts after the root. For a root
  that ends in a slash \<^verbatim>\<open>os.path.join\<close> puts none (\<^verbatim>\<open>abspath\<close> joins the same way and is
  right), so the slice cuts the first character off the name: with the root \<open>/r/\<close> the
  listed \<open>/r/b.txt\<close> becomes \<open>.txt\<close>, which is probed at \<open>/r/.txt\<close> and is not there. The tick
  reports \<open>a.txt\<close> as removed and an item \<open>.txt\<close> without type as added, and no move, for
  every md5 function \<open>h\<close>, content \<open>c\<close> and modification times.
\<close>

theorem update_trailing_slash:
  "ChangeTracker_update
     \<lparr>md5 = h,
      fsys = (\<lambda>p. if p = ''/r/b.txt''
                  then Regular \<lparr>content = c, mtime = t, denied = False, badread = None\<rparr>
                  else Nothing)\<rparr>
     [path_join ''/r/'' ''b.txt'']
     \<lparr>tpath = ''/r/'', handler = hf,
      allitems = [(''a.txt'', \<lparr>path = ''a.txt'', ct = Some Self, oldpath = None,
                    itemtype = Some File, hash = Some (h c), modtime = Some ta\<rparr>)]\<rparr>
   = Inr \<lparr>after = \<lparr>tpath = ''/r/'', handler = hf,
             allitems = [(''.txt'', \<lparr>path = ''.txt'', ct = Some Self, oldpath = None,
                           itemtype = None, hash = None, modtime = None\<rparr>)]\<rparr>,
          removed = [(''a.txt'', \<lparr>path = ''a.txt'', ct = Some Self, oldpath = None,
                        itemtype = Some File, hash = Some (h c), modtime = Some ta\<rparr>)],
          added = [(''.txt'', \<lparr>path = ''.txt'', ct = Some Self, oldpath = None,
                           itemtype = None, hash = None, modtime = None\<rparr>)],
          changed = [], moved = [],
          calls = (if hf then
                     [on_removed \<lparr>path = ''a.txt'', ct = Some Self, oldpath = None,
                        itemtype = Some File, hash = Some (h c), modtime = Some ta\<rparr>,
                      on_added \<lparr>path = ''.txt'', ct = Some Self, oldpath = None,
                        itemtype = None, hash = None, modtime = None\<rparr>]
                   else [])\<rparr>"
  by (simp add: ChangeTracker_update_def scan_step_def itempath_of_def TrackedItem_init_def
      TrackedItem_update_def abspath_def path_join_def hashfile_def hashfile_io_def
      dvalues_def move_step_def pydel_def Let_def)

theorem update_trailing_slash_witness:
  "ChangeTracker_update
     \<lparr>md5 = (\<lambda>bytes. take 16 bytes),
      fsys = (\<lambda>p. if p = ''/r/b.txt''
                  then Regular \<lparr>content = ''x'', mtime = 5, denied = False, badread = None\<rparr>
                  else Nothing)\<rparr>
     [''/r/b.txt'']
     \<lparr>tpath = ''/r/'', handler = True,
      allitems = [(''a.txt'', \<lparr>path = ''a.txt'', ct = Some Self, oldpath = None,
                    itemtype = Some File, hash = Some ''x'', modtime = Some 1\<rparr>)]\<rparr>
   = Inr \<lparr>after = \<lparr>tpath = ''/r/'', handler = True,
             allitems = [(''.txt'', \<lparr>path = ''.txt'', ct = Some Self, oldpath = None,
                           itemtype = None, hash = None, modtime = None\<rparr>)]\<rparr>,
          removed = [(''a.txt'', \<lparr>path = ''a.txt'', ct = Some Self, oldpath = None,
                        itemtype = Some File, hash = Some ''x'', modtime = Some 1\<rparr>)],
          added = [(''.txt'', \<lparr>path = ''.txt'', ct = Some Self, oldpath = None,
                           itemtype = None, hash = None, modtime = None\<rparr>)],
          changed = [], moved = [],
          calls = [on_removed \<lparr>path = ''a.txt'', ct = Some Self, oldpath = None,
                        itemtype = Some File, hash = Some ''x'', modtime = Some 1\<rparr>,
                   on_added \<lparr>path = ''.txt'', ct = Some Self, oldpath = None,
                        itemtype = None, hash = None, modtime = None\<rparr>]\<rparr>"
  using update_trailing_slash [of "\<lambda>bytes. take 16 bytes" "''x''" 5 True 1]
  by (simp add: path_join_def)

subsection \<open>C3: oldpath is never cleared\<close>

text \<open>
  C3 says that \<^verbatim>\<open>oldpath\<close> is set only in the tick that detects the move of the item and
  is absent after every tick in which the item was not moved. The code sets \<^verbatim>\<open>oldpath\<close>
  to \<^verbatim>\<open>None\<close> when an item is created and to the old path in \<^verbatim>\<open>move\<close>; nothing clears
  it. For every item \<open>i\<close> that the snapshot holds under \<open>k\<close> after a tick:
  if the tick does not report \<open>k\<close> as moved, \<^verbatim>\<open>oldpath\<close> of \<open>i\<close> is what the item under \<open>k\<close>
  had before the tick, and \<^verbatim>\<open>None\<close> if \<open>k\<close> is new, so an item that was moved once keeps
  its old path through all later ticks; if the tick reports \<open>k\<close> as moved (the previous
  snapshot having distinct keys and being key coherent), \<open>i\<close> is the reported item, it is an
  item \<open>r\<close> of the previous snapshot relocated by \<^verbatim>\<open>move\<close> to \<open>k\<close>, the path of \<open>r\<close> is no
  longer a key, and \<^verbatim>\<open>oldpath\<close> of \<open>i\<close> is the path of \<open>r\<close>.
\<close>

theorem oldpath_kept:
  assumes "ChangeTracker_update w listing self = Inr out"
    and "map_of (allitems (after out)) k = Some i"
  shows "(k \<notin> fst ` set (moved out) \<longrightarrow>
            oldpath i = (case map_of (allitems self) k of
                           Some i0 \<Rightarrow> oldpath i0 | None \<Rightarrow> None))
       \<and> (k \<in> fst ` set (moved out) \<and> distinct (map fst (allitems self)) \<and>
          coherent (allitems self) \<longrightarrow>
            map_of (moved out) k = Some i \<and>
            (\<exists>r h. map_of (allitems self) (path r) = Some r \<and>
                   path r \<notin> fst ` set (allitems (after out)) \<and>
                   TrackedItem_move w (tpath self) r k h = Inr i \<and>
                   oldpath i = Some (path r)))"
proof -
  let ?root = "tpath self"
  let ?P = "itempath_of ?root ` set listing"
  let ?s0 = "\<lparr>self_allitems = allitems self, removeditems = allitems self,
              addeditems = [], changeditems = [], moveditems = []\<rparr>"
  from assms(1) obtain s1 s2 d where
    sc: "scan w ?root ?s0 listing = Inr s1"
    and mv: "move_loop w ?root (map hash (dvalues (addeditems s1))) s1
           (dvalues (removeditems s1)) = Inr s2"
    and dr: "drop_removed (self_allitems s2) (dvalues (removeditems s2)) = Inr d"
    and af: "after out = self\<lparr>allitems := d\<rparr>"
    and mo: "moved out = moveditems s2"
    by (rule update_cases)
  from assms(2) have dk: "map_of d k = Some i" by (simp add: af)
  then have a2: "map_of (self_allitems s2) k = Some i"
    by (simp add: drop_removed_map [OF dr] split: if_splits)
  have part1: "oldpath i = (case map_of (allitems self) k of
                           Some i0 \<Rightarrow> oldpath i0 | None \<Rightarrow> None)"
    if nm: "k \<notin> fst ` set (moved out)"
  proof -
    have "map_of (moveditems s2) k = Some i \<or> map_of (self_allitems s1) k = Some i"
      using mv _ a2 by (rule move_loop_moved) simp
    moreover from nm have "map_of (moveditems s2) k = None"
      by (simp add: mo map_of_eq_None_iff)
    ultimately have a1: "map_of (self_allitems s1) k = Some i" by simp
    from scan_oldpath [OF sc a1] show ?thesis
      by (simp split: option.splits)
  qed
  have part2: "map_of (moved out) k = Some i \<and>
            (\<exists>r h. map_of (allitems self) (path r) = Some r \<and>
                   path r \<notin> fst ` set (allitems (after out)) \<and>
                   TrackedItem_move w (tpath self) r k h = Inr i \<and>
                   oldpath i = Some (path r))"
    if h: "k \<in> fst ` set (moved out)" and di: "distinct (map fst (allitems self))"
      and co: "coherent (allitems self)"
  proof -
    from h have km: "k \<in> fst ` set (moveditems s2)" by (simp add: mo)
    from di co have ok: "snapshot_ok (allitems self)" by (simp add: snapshot_ok_def)
    from scan_inv [OF tick_inv_start [OF ok] sc]
    have inv1: "tick_inv w ?root ?P s1" by simp
    from move_loop_inv [OF inv1 mv] have inv2: "tick_inv w ?root ?P s2" .
    note D2 = tick_invD [OF inv2]
    note F = tick_inv_final [OF inv2 dr]
    have "fst ` set (self_allitems ?s0) \<subseteq> fst ` set (allitems self) \<union> fst ` set (addeditems ?s0)"
      by simp
    from scan_keys [OF sc this]
    have rs: "set (removeditems s1) \<subseteq> set (allitems self)" by simp
    have origin: "\<forall>r \<in> set (dvalues (removeditems s1)). map_of (allitems self) (path r) = Some r"
    proof
      fix r
      assume "r \<in> set (dvalues (removeditems s1))"
      then obtain q where "(q, r) \<in> set (removeditems s1)" by (auto simp: dvalues_def)
      with rs have qr: "(q, r) \<in> set (allitems self)" by (rule subsetD)
      with co have "path r = q" by (auto simp: coherent_def)
      with qr di show "map_of (allitems self) (path r) = Some r" by simp
    qed
    from scan_moved [OF sc] have m1: "moveditems s1 = []" by simp
    from km obtain m where m: "map_of (moveditems s2) k = Some m"
      by (auto simp: in_keys_iff)
    have start: "\<And>k m. map_of (moveditems s1) k = Some m \<Longrightarrow>
        k \<in> ?P \<and> map_of (self_allitems s1) k = Some m \<and>
        (\<exists>r h. map_of (allitems self) (path r) = Some r \<and> path r \<notin> ?P \<and>
               TrackedItem_move w ?root r k h = Inr m \<and> oldpath m = Some (path r))"
      by (simp add: m1)
    from move_loop_origin [OF inv1 mv origin start m]
    have kP: "k \<in> ?P" and am: "map_of (self_allitems s2) k = Some m"
      and ex: "\<exists>r h. map_of (allitems self) (path r) = Some r \<and> path r \<notin> ?P \<and>
               TrackedItem_move w ?root r k h = Inr m \<and> oldpath m = Some (path r)"
      by simp_all
    from am a2 have im: "m = i" by simp
    from F(2) have keys: "fst ` set (allitems (after out)) = ?P" by (simp add: af)
    from m ex show ?thesis
      unfolding keys im mo by simp
  qed
  from part1 part2 show ?thesis by blast
qed

theorem oldpath_kept_witness:
  "oldpath \<lparr>path = ''b.txt'', ct = Some Self, oldpath = Some ''a.txt'',
            itemtype = Some File, hash = Some ''x'', modtime = Some 5\<rparr>
   = (case map_of [(''b.txt'', \<lparr>path = ''b.txt'', ct = Some Self, oldpath = Some ''a.txt'',
                     itemtype = Some File, hash = Some ''x'', modtime = Some 5\<rparr>)] ''b.txt''
      of Some i0 \<Rightarrow> oldpath i0 | None \<Rightarrow> None)
   \<and> (\<exists>r h. map_of [(''a.txt'', \<lparr>path = ''a.txt'', ct = Some Self, oldpath = None,
                        itemtype = Some File, hash = Some ''x'', modtime = Some 1\<rparr>)]
               (path r) = Some r
            \<and> path r \<noteq> ''b.txt''
            \<and> TrackedItem_move
                 \<lparr>md5 = (\<lambda>bytes. take 16 bytes),
                  fsys = (\<lambda>p. if p = ''/r/b.txt''
                              then Regular \<lparr>content = ''x'', mtime = 5, denied = False,
                                            badread = None\<rparr>
                              else Nothing)\<rparr>
                 ''/r'' r ''b.txt'' h
               = Inr \<lparr>path = ''b.txt'', ct = Some Self, oldpath = Some ''a.txt'',
                      itemtype = Some File, hash = Some ''x'', modtime = Some 5\<rparr>
            \<and> Some ''a.txt'' = Some (path r))"
proof -
  let ?w = "\<lparr>md5 = (\<lambda>bytes. take 16 bytes),
             fsys = (\<lambda>p. if p = ''/r/b.txt''
                         then Regular \<lparr>content = ''x'', mtime = 5, denied = False,
                                       badread = None\<rparr>
                         else Nothing)\<rparr>"
  let ?a = "\<lparr>path = ''a.txt'', ct = Some Self, oldpath = None,
             itemtype = Some File, hash = Some ''x'', modtime = Some 1\<rparr>"
  let ?i = "\<lparr>path = ''b.txt'', ct = Some Self, oldpath = Some ''a.txt'',
             itemtype = Some File, hash = Some ''x'', modtime = Some 5\<rparr>"
  let ?first = "\<lparr>tpath = ''/r'', handler = True, allitems = [(''a.txt'', ?a)]\<rparr>"
  let ?self = "\<lparr>tpath = ''/r'', handler = True, allitems = [(''b.txt'', ?i)]\<rparr>"
  let ?out1 = "\<lparr>after = ?self, removed = [], added = [], changed = [],
                moved = [(''b.txt'', ?i)], calls = [on_moved ?i]\<rparr>"
  let ?out2 = "\<lparr>after = ?self, removed = [], added = [], changed = [], moved = [],
               calls = []\<rparr>"
  have t1: "ChangeTracker_update ?w [''/r/b.txt''] ?first = Inr ?out1"
    by (simp add: ChangeTracker_update_def scan_step_def itempath_of_def TrackedItem_init_def
        TrackedItem_update_def abspath_def path_join_def hashfile_def hashfile_io_def
        read_loop_all stat_mtime_def dvalues_def move_step_def pydel_def TrackedItem_move_def
        Let_def)
  have t2: "ChangeTracker_update ?w [''/r/b.txt''] ?self = Inr ?out2"
    by (simp add: ChangeTracker_update_def scan_step_def itempath_of_def
        TrackedItem_update_def abspath_def path_join_def hashfile_def hashfile_io_def
        read_loop_all stat_mtime_def dvalues_def mutate_def Let_def)
  have m1: "map_of (allitems (after ?out1)) ''b.txt'' = Some ?i" by simp
  have m2: "map_of (allitems (after ?out2)) ''b.txt'' = Some ?i" by simp
  from oldpath_kept [OF t2 m2] oldpath_kept [OF t1 m1] show ?thesis
    by (simp add: coherent_def)
qed

text \<open>
  Two ticks in the same world. The first moves \<open>a.txt\<close> to \<open>b.txt\<close>. The second reports no
  move, and \<open>b.txt\<close> still has \<^verbatim>\<open>oldpath\<close> \<open>a.txt\<close> after it.
\<close>

theorem oldpath_not_cleared:
  "ChangeTracker_update
     \<lparr>md5 = (\<lambda>bytes. take 16 bytes),
      fsys = (\<lambda>p. if p = ''/r/b.txt''
                  then Regular \<lparr>content = ''x'', mtime = 5, denied = False, badread = None\<rparr>
                  else Nothing)\<rparr>
     [''/r/b.txt'']
     \<lparr>tpath = ''/r'', handler = True,
      allitems = [(''a.txt'', \<lparr>path = ''a.txt'', ct = Some Self, oldpath = None,
                    itemtype = Some File, hash = Some ''x'', modtime = Some 1\<rparr>)]\<rparr>
   = Inr \<lparr>after = \<lparr>tpath = ''/r'', handler = True,
             allitems = [(''b.txt'', \<lparr>path = ''b.txt'', ct = Some Self,
                           oldpath = Some ''a.txt'', itemtype = Some File, hash = Some ''x'',
                           modtime = Some 5\<rparr>)]\<rparr>,
          removed = [], added = [], changed = [],
          moved = [(''b.txt'', \<lparr>path = ''b.txt'', ct = Some Self,
                           oldpath = Some ''a.txt'', itemtype = Some File, hash = Some ''x'',
                           modtime = Some 5\<rparr>)],
          calls = [on_moved \<lparr>path = ''b.txt'', ct = Some Self,
                           oldpath = Some ''a.txt'', itemtype = Some File, hash = Some ''x'',
                           modtime = Some 5\<rparr>]\<rparr>
   \<and> ChangeTracker_update
     \<lparr>md5 = (\<lambda>bytes. take 16 bytes),
      fsys = (\<lambda>p. if p = ''/r/b.txt''
                  then Regular \<lparr>content = ''x'', mtime = 5, denied = False, badread = None\<rparr>
                  else Nothing)\<rparr>
     [''/r/b.txt'']
     \<lparr>tpath = ''/r'', handler = True,
      allitems = [(''b.txt'', \<lparr>path = ''b.txt'', ct = Some Self,
                    oldpath = Some ''a.txt'', itemtype = Some File, hash = Some ''x'',
                    modtime = Some 5\<rparr>)]\<rparr>
   = Inr \<lparr>after = \<lparr>tpath = ''/r'', handler = True,
             allitems = [(''b.txt'', \<lparr>path = ''b.txt'', ct = Some Self,
                           oldpath = Some ''a.txt'', itemtype = Some File, hash = Some ''x'',
                           modtime = Some 5\<rparr>)]\<rparr>,
          removed = [], added = [], changed = [], moved = [], calls = []\<rparr>"
  by (simp add: ChangeTracker_update_def scan_step_def itempath_of_def TrackedItem_init_def
      TrackedItem_update_def abspath_def path_join_def hashfile_def hashfile_io_def
      read_loop_all stat_mtime_def dvalues_def move_step_def pydel_def TrackedItem_move_def
      mutate_def Let_def)

subsection \<open>C5: a listed path that is gone when it is probed\<close>

text \<open>
  C5 says that an item whose path vanished between the listing and the probes resolves to
  absent with no hash and no modification time, is treated as removed in that same tick and
  never reported as added, and that no item stays in the snapshot in the absent state. The
  first part holds. For the rest the code has no such rule: a listed path is never removed
  in the tick that lists it. The item is stored in the new snapshot with \<^verbatim>\<open>itemtype\<close>
  \<^verbatim>\<open>None\<close>, it is not among the removed items, and it is reported as added when its path
  was not in the previous snapshot. (The snapshot is one with distinct keys, key coherent,
  whose files have hashes.)
\<close>

theorem gone_item_kept:
  assumes "distinct (map fst (allitems self))" and "coherent (allitems self)"
    and "\<forall>(k, i) \<in> set (allitems self). itemtype i = Some File \<longrightarrow> hash i \<noteq> None"
    and "ChangeTracker_update w listing self = Inr out"
    and "raw \<in> set listing"
    and "fsys w (path_join (tpath self) (itempath_of (tpath self) raw)) = Nothing"
  shows "(\<exists>i. map_of (allitems (after out)) (itempath_of (tpath self) raw) = Some i \<and>
              itemtype i = None \<and> hash i = None \<and> modtime i = None)
       \<and> itempath_of (tpath self) raw \<notin> fst ` set (removed out)
       \<and> (itempath_of (tpath self) raw \<notin> fst ` set (allitems self) \<longrightarrow>
            itempath_of (tpath self) raw \<in> fst ` set (added out))"
proof -
  let ?root = "tpath self"
  let ?p = "itempath_of ?root raw"
  let ?P = "itempath_of ?root ` set listing"
  let ?s0 = "\<lparr>self_allitems = allitems self, removeditems = allitems self,
              addeditems = [], changeditems = [], moveditems = []\<rparr>"
  from assms(1,2) have ok: "snapshot_ok (allitems self)" by (simp add: snapshot_ok_def)
  from assms(4) obtain s1 s2 d where
    sc: "scan w ?root ?s0 listing = Inr s1"
    and mv: "move_loop w ?root (map hash (dvalues (addeditems s1))) s1
           (dvalues (removeditems s1)) = Inr s2"
    and dr: "drop_removed (self_allitems s2) (dvalues (removeditems s2)) = Inr d"
    and af: "after out = self\<lparr>allitems := d\<rparr>"
    and re: "removed out = removeditems s2" and ad: "added out = addeditems s2"
    by (rule update_cases)
  from scan_inv [OF tick_inv_start [OF ok] sc]
  have inv1: "tick_inv w ?root ?P s1" by simp
  from move_loop_inv [OF inv1 mv] have inv2: "tick_inv w ?root ?P s2" .
  note D1 = tick_invD [OF inv1]
  note D2 = tick_invD [OF inv2]
  note F = tick_inv_final [OF inv2 dr]
  from assms(5) have pP: "?p \<in> ?P" by simp
  \<comment> \<open>the item is in the new snapshot, in the absent state\<close>
  from pP F(2) have "?p \<in> fst ` set d" by simp
  then obtain i where i: "map_of d ?p = Some i" by (auto simp: in_keys_iff)
  from F(1) i have pi: "path i = ?p"
    by (auto simp: snapshot_ok_def coherent_def dest: map_of_SomeD)
  from F(3) [OF i] assms(6) pi have "itemtype i = None \<and> hash i = None \<and> modtime i = None"
    by (intro settled_gone [where w = w and root = ?root]) simp_all
  with i have first: "\<exists>i. map_of (allitems (after out)) ?p = Some i \<and>
              itemtype i = None \<and> hash i = None \<and> modtime i = None"
    by (simp add: af)
  \<comment> \<open>it is not removed\<close>
  from pP D2(9) have second: "?p \<notin> fst ` set (removed out)" by (auto simp: re)
  \<comment> \<open>it is added when its path is new\<close>
  have third: "?p \<notin> fst ` set (allitems self) \<longrightarrow> ?p \<in> fst ` set (added out)"
  proof
    assume new: "?p \<notin> fst ` set (allitems self)"
    have "fst ` set (self_allitems ?s0) \<subseteq> fst ` set (allitems self) \<union> fst ` set (addeditems ?s0)"
      by simp
    from scan_keys [OF sc this]
    have rs: "set (removeditems s1) \<subseteq> set (allitems self)"
      and ks: "fst ` set (self_allitems s1) \<subseteq> fst ` set (allitems self) \<union> fst ` set (addeditems s1)"
      by simp_all
    from pP D1(10) have "?p \<in> fst ` set (self_allitems s1)" by simp
    with ks new have "?p \<in> fst ` set (addeditems s1)" by blast
    then obtain j where j: "map_of (addeditems s1) ?p = Some j" by (auto simp: in_keys_iff)
    then have ja: "map_of (self_allitems s1) ?p = Some j" by (rule D1(6))
    then have pj: "path j = ?p" by (rule D1(4))
    from pP D1(9) have "?p \<notin> fst ` set (removeditems s1)" by auto
    with ja have "settled w ?root j" by (rule D1(7))
    with assms(6) pj have hj: "hash j = None"
      using settled_gone [of w ?root j] by simp
    have files: "\<forall>r \<in> set (dvalues (removeditems s1)). itemtype r = Some File \<longrightarrow> hash r \<noteq> None"
    proof
      fix r
      assume "r \<in> set (dvalues (removeditems s1))"
      then obtain k where "(k, r) \<in> set (removeditems s1)" by (auto simp: dvalues_def)
      with rs have "(k, r) \<in> set (allitems self)" by (rule subsetD)
      with assms(3) show "itemtype r = Some File \<longrightarrow> hash r \<noteq> None" by auto
    qed
    from move_loop_keeps_added [OF inv1 mv files j hj]
    have "map_of (addeditems s2) ?p = Some j" .
    then show "?p \<in> fst ` set (added out)" by (simp add: ad map_of_in_keys)
  qed
  from first second third show ?thesis by simp
qed

theorem gone_item_kept_witness:
  "(\<exists>i. map_of [(''p.txt'', \<lparr>path = ''p.txt'', ct = Some Self, oldpath = None,
                   itemtype = None, hash = None, modtime = None\<rparr>)] ''p.txt'' = Some i \<and>
         itemtype i = None \<and> hash i = None \<and> modtime i = None)
   \<and> ''p.txt'' \<notin> fst ` set ([] :: item dict)
   \<and> ''p.txt'' \<in> fst ` set [(''p.txt'', \<lparr>path = ''p.txt'', ct = Some Self, oldpath = None,
                   itemtype = None, hash = None, modtime = None\<rparr>)]"
proof -
  let ?w = "\<lparr>md5 = (\<lambda>bytes. take 16 bytes), fsys = (\<lambda>p. Nothing)\<rparr>"
  let ?self = "\<lparr>tpath = ''/r'', handler = True, allitems = []\<rparr>"
  let ?i = "\<lparr>path = ''p.txt'', ct = Some Self, oldpath = None,
             itemtype = None, hash = None, modtime = None\<rparr>"
  let ?out = "\<lparr>after = \<lparr>tpath = ''/r'', handler = True, allitems = [(''p.txt'', ?i)]\<rparr>,
               removed = [], added = [(''p.txt'', ?i)], changed = [], moved = [],
               calls = [on_added ?i]\<rparr>"
  have d: "distinct (map fst (allitems ?self))" by simp
  have c: "coherent (allitems ?self)" by (simp add: coherent_def)
  have f: "\<forall>(k, i) \<in> set (allitems ?self). itemtype i = Some File \<longrightarrow> hash i \<noteq> None"
    by simp
  have t: "ChangeTracker_update ?w [''/r/p.txt''] ?self = Inr ?out"
    by (simp add: ChangeTracker_update_def scan_step_def itempath_of_def TrackedItem_init_def
        TrackedItem_update_def abspath_def path_join_def hashfile_def hashfile_io_def
        dvalues_def Let_def)
  have l: "''/r/p.txt'' \<in> set [''/r/p.txt'']" by simp
  have g: "fsys ?w (path_join (tpath ?self) (itempath_of (tpath ?self) ''/r/p.txt'')) = Nothing"
    by simp
  from gone_item_kept [OF d c f t l g] show ?thesis
    by (simp add: itempath_of_def)
qed

text \<open>
  The snapshot is empty, \<open>p.txt\<close> is listed and is gone when it is probed. The tick reports
  it as added and stores it with \<^verbatim>\<open>itemtype\<close> \<^verbatim>\<open>None\<close>, and it removes nothing. While the
  path stays listed (a socket or a FIFO is listed in every tick and is neither link, file nor
  directory), the next tick keeps the item in that state.
\<close>

theorem gone_item_added:
  "ChangeTracker_update \<lparr>md5 = (\<lambda>bytes. take 16 bytes), fsys = (\<lambda>p. Nothing)\<rparr>
     [''/r/p.txt''] \<lparr>tpath = ''/r'', handler = True, allitems = []\<rparr>
   = Inr \<lparr>after = \<lparr>tpath = ''/r'', handler = True,
             allitems = [(''p.txt'', \<lparr>path = ''p.txt'', ct = Some Self, oldpath = None,
                           itemtype = None, hash = None, modtime = None\<rparr>)]\<rparr>,
          removed = [],
          added = [(''p.txt'', \<lparr>path = ''p.txt'', ct = Some Self, oldpath = None,
                           itemtype = None, hash = None, modtime = None\<rparr>)],
          changed = [], moved = [],
          calls = [on_added \<lparr>path = ''p.txt'', ct = Some Self, oldpath = None,
                           itemtype = None, hash = None, modtime = None\<rparr>]\<rparr>
   \<and> ChangeTracker_update \<lparr>md5 = (\<lambda>bytes. take 16 bytes), fsys = (\<lambda>p. Nothing)\<rparr>
     [''/r/p.txt'']
     \<lparr>tpath = ''/r'', handler = True,
      allitems = [(''p.txt'', \<lparr>path = ''p.txt'', ct = Some Self, oldpath = None,
                    itemtype = None, hash = None, modtime = None\<rparr>)]\<rparr>
   = Inr \<lparr>after = \<lparr>tpath = ''/r'', handler = True,
             allitems = [(''p.txt'', \<lparr>path = ''p.txt'', ct = Some Self, oldpath = None,
                           itemtype = None, hash = None, modtime = None\<rparr>)]\<rparr>,
          removed = [], added = [], changed = [], moved = [], calls = []\<rparr>"
  by (simp add: ChangeTracker_update_def scan_step_def itempath_of_def TrackedItem_init_def
      TrackedItem_update_def abspath_def path_join_def hashfile_def hashfile_io_def
      dvalues_def mutate_def Let_def)

end
